theory Spec2Isabelle
  imports Main "HOL-Library.Word" "HOL-Library.Multiset"
begin

section \<open>The producer/consumer driver (kern/asst1/producerconsumer_driver.c)\<close>

subsection \<open>Data and configuration\<close>

text \<open>
  OS/161 runs on 32-bit MIPS: a C \<^verbatim>\<open>int\<close> and an \<^verbatim>\<open>unsigned long\<close> are both 32 bits
  wide. Both are modelled as \<open>32 word\<close>; arithmetic wraps around, and a value is
  "true" in a C condition when it differs from 0.
\<close>

type_synonym cint = "32 word"

text \<open>\<^verbatim>\<open>struct pc_data\<close>: the item handed from producers to consumers.\<close>

record pc_data =
  item1 :: cint
  item2 :: cint

definition NUM_PRODUCERS :: nat where
  "NUM_PRODUCERS = 2"

definition NUM_CONSUMERS :: nat where
  "NUM_CONSUMERS = 5"

definition ITEMS_TO_PRODUCE :: cint where
  "ITEMS_TO_PRODUCE = 30"

definition CONSUMER_BORED_COUNT :: cint where
  "CONSUMER_BORED_COUNT = 10000"

text \<open>The two completion semaphores of the driver.\<close>

datatype sem = consumer_finished | producer_finished

text \<open>The two thread entry points handed to \<^verbatim>\<open>thread_fork\<close>.\<close>

datatype entrypoint = Producer_entry | Consumer_entry

text \<open>The texts printed by \<^verbatim>\<open>kprintf\<close> and \<^verbatim>\<open>panic\<close>, one constructor per format string.\<close>

datatype message =
    Producer_started
  | Producer_finished
  | Consumer_started
  | Unexpected_data cint cint
  | Consumer_bored
  | Consumer_finished_normally
  | Waiting_for_producers
  | All_producers_exited
  | Starting_up
  | Couldnt_fork_consumer cint
  | Couldnt_fork_producer cint
  | Couldnt_create_semaphore

subsection \<open>Thread code as resumptions\<close>

text \<open>
  A thread function is a tree of the calls it makes to the rest of the kernel. A call
  whose result the code uses (\<^verbatim>\<open>consumer_consume\<close>, \<^verbatim>\<open>sem_create\<close>, \<^verbatim>\<open>thread_fork\<close>)
  carries the continuation as a function of that result.
\<close>

datatype action =
    Kprintf message
  | Produce pc_data
  | V sem
  | P sem
  | Startup
  | Shutdown
  | Sem_destroy sem

datatype prog =
    Return
  | Panic message
  | Do action prog
  | Consume "pc_data \<Rightarrow> prog"
  | Sem_create sem nat "bool \<Rightarrow> prog"
  | Thread_fork entrypoint cint "cint \<Rightarrow> prog"

text \<open>Counting a nonzero 32-bit value down by one makes its unsigned reading smaller.\<close>

lemma unat_pred_less: "(x :: cint) \<noteq> 0 \<Longrightarrow> unat (x - 1) < unat x"
proof -
  assume nz: "x \<noteq> 0"
  then have "unat (x - 1) = unat x - 1" by (rule unat_minus_one)
  moreover from nz have "unat x \<noteq> 0" by (simp add: unat_eq_0)
  ultimately show ?thesis by arith
qed

lemma bored_distance_less:
  "(b :: cint) + 1 \<noteq> c \<Longrightarrow> unat (c - 1 - (b + 1)) < unat (c - 1 - b)"
proof -
  assume "b + 1 \<noteq> c"
  then have nz: "c - 1 - b \<noteq> 0" by (auto simp: algebra_simps)
  have eq: "c - 1 - (b + 1) = (c - 1 - b) - 1" by (simp only: diff_diff_eq add.commute)
  show ?thesis unfolding eq using nz by (rule unat_pred_less)
qed

subsection \<open>producer\_thread\<close>

text \<open>
  The loop \<^verbatim>\<open>while(--items_to_go) { ... producer_produce(thedata); }\<close> followed by
  the rest \<open>k\<close> of the function. The decrement happens before the test.
\<close>

function producer_loop :: "cint \<Rightarrow> cint \<Rightarrow> prog \<Rightarrow> prog" where
  "producer_loop items_to_go thread_num k =
     (if items_to_go - 1 \<noteq> 0 then
        Do (Produce \<lparr>item1 = (items_to_go - 1) + 1000 * thread_num,
                     item2 = ((items_to_go - 1) + 1000 * thread_num) + 1\<rparr>)
           (producer_loop (items_to_go - 1) thread_num k)
      else k)"
  by pat_completeness auto
termination
proof (relation "measure (\<lambda>(items_to_go, thread_num, k). unat (items_to_go - 1))")
  show "wf (measure (\<lambda>(items_to_go :: cint, thread_num :: cint, k :: prog). unat (items_to_go - 1)))"
    by (rule wf_measure)
next
  fix items_to_go thread_num :: cint and k :: prog
  assume "items_to_go - 1 \<noteq> 0"
  then have "unat (items_to_go - 1 - 1) < unat (items_to_go - 1)"
    by (rule unat_pred_less)
  then show "((items_to_go - 1, thread_num, k), (items_to_go, thread_num, k))
      \<in> measure (\<lambda>(items_to_go, thread_num, k). unat (items_to_go - 1))"
    by (simp only: in_measure prod.case)
qed

declare producer_loop.simps [simp del]

definition producer_thread :: "cint \<Rightarrow> prog" where
  "producer_thread thread_num =
     Do (Kprintf Producer_started)
       (producer_loop ITEMS_TO_PRODUCE thread_num
         (Do (Kprintf Producer_finished)
           (Do (V producer_finished) Return)))"

subsection \<open>consumer\_thread\<close>

text \<open>The condition of the consumer's \<^verbatim>\<open>while\<close> loop.\<close>

definition consumer_continues :: "pc_data \<Rightarrow> bool" where
  "consumer_continues thedata \<longleftrightarrow> item1 thedata \<noteq> 0 \<and> item2 thedata \<noteq> 0"

text \<open>
  The \<^verbatim>\<open>while\<close> loop of \<^verbatim>\<open>consumer_thread\<close>, entered with the current \<^verbatim>\<open>bored_count\<close>
  and the item just received; \<open>k\<close> is the code after the loop, which reads
  \<^verbatim>\<open>bored_count\<close>.
\<close>

function consumer_loop :: "cint \<Rightarrow> pc_data \<Rightarrow> (cint \<Rightarrow> prog) \<Rightarrow> prog" where
  "consumer_loop bored_count thedata k =
     (if consumer_continues thedata then
        (if bored_count + 1 = CONSUMER_BORED_COUNT then k (bored_count + 1)
         else if item1 thedata + 1 \<noteq> item2 thedata then
           Do (Kprintf (Unexpected_data (item1 thedata) (item2 thedata)))
             (Consume (\<lambda>thedata. consumer_loop (bored_count + 1) thedata k))
         else Consume (\<lambda>thedata. consumer_loop (bored_count + 1) thedata k))
      else k bored_count)"
  by pat_completeness auto
termination
proof (relation "measure (\<lambda>(bored_count, thedata, k). unat (CONSUMER_BORED_COUNT - 1 - bored_count))")
  show "wf (measure (\<lambda>(bored_count :: cint, thedata :: pc_data, k :: cint \<Rightarrow> prog).
          unat (CONSUMER_BORED_COUNT - 1 - bored_count)))"
    by (rule wf_measure)
next
  fix bored_count :: cint and thedata x :: pc_data and k :: "cint \<Rightarrow> prog"
  assume "bored_count + 1 \<noteq> CONSUMER_BORED_COUNT"
  then have "unat (CONSUMER_BORED_COUNT - 1 - (bored_count + 1))
      < unat (CONSUMER_BORED_COUNT - 1 - bored_count)"
    by (rule bored_distance_less)
  then show "((bored_count + 1, x, k), (bored_count, thedata, k))
      \<in> measure (\<lambda>(bored_count, thedata, k). unat (CONSUMER_BORED_COUNT - 1 - bored_count))"
    by (simp only: in_measure prod.case)
  then show "((bored_count + 1, x, k), (bored_count, thedata, k))
      \<in> measure (\<lambda>(bored_count, thedata, k). unat (CONSUMER_BORED_COUNT - 1 - bored_count))" .
qed

declare consumer_loop.simps [simp del]

text \<open>The code of \<^verbatim>\<open>consumer_thread\<close> after its loop: the report and the completion signal.\<close>

definition consumer_finish :: "cint \<Rightarrow> prog" where
  "consumer_finish bored_count =
     Do (Kprintf (if bored_count = CONSUMER_BORED_COUNT then Consumer_bored
                  else Consumer_finished_normally))
       (Do (V consumer_finished) Return)"

definition consumer_thread :: "cint \<Rightarrow> prog" where
  "consumer_thread thread_num =
     Do (Kprintf Consumer_started)
       (Consume (\<lambda>thedata. consumer_loop 0 thedata consumer_finish))"

subsection \<open>The main thread\<close>

text \<open>
  \<^verbatim>\<open>for(i = 0; i < NUM_CONSUMERS; i++)\<close> forking one consumer per round and
  panicking when \<^verbatim>\<open>thread_fork\<close> returns a nonzero error code.
\<close>

function start_consumer_threads_from :: "nat \<Rightarrow> prog \<Rightarrow> prog" where
  "start_consumer_threads_from i k =
     (if i < NUM_CONSUMERS then
        Thread_fork Consumer_entry (of_nat i) (\<lambda>result.
          if result \<noteq> 0 then Panic (Couldnt_fork_consumer result)
          else start_consumer_threads_from (i + 1) k)
      else k)"
  by pat_completeness auto
termination
  by (relation "measure (\<lambda>(i, k). NUM_CONSUMERS - i)") auto

declare start_consumer_threads_from.simps [simp del]

definition start_consumer_threads :: "prog \<Rightarrow> prog" where
  "start_consumer_threads k = start_consumer_threads_from 0 k"

function start_producer_threads_from :: "nat \<Rightarrow> prog \<Rightarrow> prog" where
  "start_producer_threads_from i k =
     (if i < NUM_PRODUCERS then
        Thread_fork Producer_entry (of_nat i) (\<lambda>result.
          if result \<noteq> 0 then Panic (Couldnt_fork_producer result)
          else start_producer_threads_from (i + 1) k)
      else k)"
  by pat_completeness auto
termination
  by (relation "measure (\<lambda>(i, k). NUM_PRODUCERS - i)") auto

declare start_producer_threads_from.simps [simp del]

definition start_producer_threads :: "prog \<Rightarrow> prog" where
  "start_producer_threads k = start_producer_threads_from 0 k"

text \<open>\<^verbatim>\<open>for(i = 0; i < n; i++) a;\<close> for a call \<open>a\<close> without a result.\<close>

function repeat_from :: "nat \<Rightarrow> nat \<Rightarrow> action \<Rightarrow> prog \<Rightarrow> prog" where
  "repeat_from i n a k = (if i < n then Do a (repeat_from (i + 1) n a k) else k)"
  by pat_completeness auto
termination
  by (relation "measure (\<lambda>(i, n, a, k). n - i)") auto

declare repeat_from.simps [simp del]

definition wait_for_producer_threads :: "prog \<Rightarrow> prog" where
  "wait_for_producer_threads k =
     Do (Kprintf Waiting_for_producers)
       (repeat_from 0 NUM_PRODUCERS (P producer_finished)
         (Do (Kprintf All_producers_exited) k))"

definition stop_consumer_threads :: "prog \<Rightarrow> prog" where
  "stop_consumer_threads k =
     repeat_from 0 NUM_CONSUMERS (Produce \<lparr>item1 = 0, item2 = 0\<rparr>)
       (repeat_from 0 NUM_CONSUMERS (P consumer_finished) k)"

definition run_producerconsumer :: prog where
  "run_producerconsumer =
     Do (Kprintf Starting_up)
       (Sem_create consumer_finished 0 (\<lambda>ok.
          if \<not> ok then Panic Couldnt_create_semaphore
          else Sem_create producer_finished 0 (\<lambda>ok.
            if \<not> ok then Panic Couldnt_create_semaphore
            else Do Startup
              (start_consumer_threads
                (start_producer_threads
                  (wait_for_producer_threads
                    (stop_consumer_threads
                      (Do Shutdown
                        (Do (Sem_destroy producer_finished)
                          (Do (Sem_destroy consumer_finished) Return))))))))))"

subsection \<open>Sequential runs\<close>

text \<open>
  One thread run on its own: every call returns at once, \<^verbatim>\<open>consumer_consume\<close> returns
  the items of a given list in turn and blocks when the list is used up, and the
  results of \<^verbatim>\<open>sem_create\<close> and \<^verbatim>\<open>thread_fork\<close> are read from the environment. The
  environment also says whether the allocations of \<^verbatim>\<open>producerconsumer_startup\<close> succeed;
  this matters only when the threads run together.
\<close>

record env =
  sem_ok :: "sem \<Rightarrow> bool"
  fork_result :: "entrypoint \<Rightarrow> cint \<Rightarrow> cint"
  startup_ok :: bool

datatype event =
    Called action
  | Got pc_data
  | Created sem nat bool
  | Forked entrypoint cint cint
  | Returned
  | Panicked message
  | Blocked

primrec exec :: "prog \<Rightarrow> env \<Rightarrow> pc_data list \<Rightarrow> event list" where
  "exec Return e xs = [Returned]"
| "exec (Panic m) e xs = [Panicked m]"
| "exec (Do a p) e xs = Called a # exec p e xs"
| "exec (Consume f) e xs =
     (case xs of [] \<Rightarrow> [Blocked] | x # xs' \<Rightarrow> Got x # exec (f x) e xs')"
| "exec (Sem_create s n f) e xs = Created s n (sem_ok e s) # exec (f (sem_ok e s)) e xs"
| "exec (Thread_fork ep n f) e xs =
     Forked ep n (fork_result e ep n) # exec (f (fork_result e ep n)) e xs"

text \<open>The items passed to \<^verbatim>\<open>producer_produce\<close> in a run, in order.\<close>

fun produced :: "event list \<Rightarrow> pc_data list" where
  "produced [] = []"
| "produced (Called (Produce d) # evs) = d # produced evs"
| "produced (ev # evs) = produced evs"

text \<open>The number of calls of \<^verbatim>\<open>consumer_consume\<close> in a run, returned or not.\<close>

fun consume_calls :: "event list \<Rightarrow> nat" where
  "consume_calls [] = 0"
| "consume_calls (Got d # evs) = Suc (consume_calls evs)"
| "consume_calls (Blocked # evs) = Suc (consume_calls evs)"
| "consume_calls (ev # evs) = consume_calls evs"

text \<open>The data errors reported in a run, in order.\<close>

fun data_errors :: "event list \<Rightarrow> (cint \<times> cint) list" where
  "data_errors [] = []"
| "data_errors (Called (Kprintf (Unexpected_data a b)) # evs) = (a, b) # data_errors evs"
| "data_errors (ev # evs) = data_errors evs"

text \<open>The items returned by \<^verbatim>\<open>consumer_consume\<close> in a run, in order.\<close>

fun got :: "event list \<Rightarrow> pc_data list" where
  "got [] = []"
| "got (Got d # evs) = d # got evs"
| "got (ev # evs) = got evs"

text \<open>An environment in which every allocation and every fork succeeds.\<close>

definition all_succeed :: env where
  "all_succeed = \<lparr>sem_ok = (\<lambda>s. True), fork_result = (\<lambda>ep n. 0), startup_ok = True\<rparr>"

text \<open>
  The number of further rounds of the consumer's loop that call \<^verbatim>\<open>consumer_consume\<close>
  before \<^verbatim>\<open>++bored_count\<close> reaches \<^verbatim>\<open>CONSUMER_BORED_COUNT\<close>.
\<close>

definition bored_left :: "cint \<Rightarrow> nat" where
  "bored_left bored_count = unat (CONSUMER_BORED_COUNT - 1 - bored_count)"

section \<open>Sequential properties of the driver\<close>

subsection \<open>Auxiliary facts\<close>

lemma exec_not_Nil [simp]: "exec p e xs \<noteq> []"
  by (cases p) (auto split: list.splits)

lemma got_set: "d \<in> set (got evs) \<Longrightarrow> Got d \<in> set evs"
  by (induction evs rule: got.induct) auto

lemma exec_repeat_from:
  "exec (repeat_from i n a k) e xs = replicate (n - i) (Called a) @ exec k e xs"
proof (induction i n a k rule: repeat_from.induct)
  case (1 i n a k)
  show ?case
  proof (cases "i < n")
    case True
    then have "n - i = Suc (n - (i + 1))" by arith
    with True "1.IH" show ?thesis by (subst repeat_from.simps) simp
  next
    case False
    then show ?thesis by (subst repeat_from.simps) simp
  qed
qed

lemma produced_replicate_Produce [simp]:
  "produced (replicate n (Called (Produce d)) @ evs) = replicate n d @ produced evs"
  by (induction n) simp_all

lemma produced_replicate_P [simp]:
  "produced (replicate n (Called (P s)) @ evs) = produced evs"
  by (induction n) simp_all

subsection \<open>The producer's loop\<close>

lemma produced_producer_loop:
  "n \<noteq> 0 \<Longrightarrow> length (produced (exec (producer_loop n t k) e xs))
     = unat n - 1 + length (produced (exec k e xs))"
proof (induction n t k rule: producer_loop.induct)
  case (1 items_to_go thread_num k)
  show ?case
  proof (cases "items_to_go - 1 = 0")
    case True
    then have "items_to_go = 1" by simp
    then show ?thesis by (simp add: producer_loop.simps)
  next
    case False
    then have "unat (items_to_go - 1) \<noteq> 0" by (simp add: unat_eq_0)
    moreover have "unat (items_to_go - 1) = unat items_to_go - 1"
      using "1.prems" by (rule unat_minus_one)
    ultimately show ?thesis
      using False "1.IH"[OF False False]
      by (subst producer_loop.simps) simp
  qed
qed

lemma producer_loop_relation:
  "d \<in> set (produced (exec (producer_loop n t k) e xs)) \<Longrightarrow>
     item2 d = item1 d + 1 \<or> d \<in> set (produced (exec k e xs))"
proof (induction n t k rule: producer_loop.induct)
  case (1 items_to_go thread_num k)
  show ?case
  proof (cases "items_to_go - 1 = 0")
    case True
    with "1.prems" show ?thesis by (subst (asm) producer_loop.simps) simp
  next
    case False
    from "1.prems" have "d = \<lparr>item1 = (items_to_go - 1) + 1000 * thread_num,
                     item2 = ((items_to_go - 1) + 1000 * thread_num) + 1\<rparr>
       \<or> d \<in> set (produced (exec (producer_loop (items_to_go - 1) thread_num k) e xs))"
      using False by (subst (asm) producer_loop.simps) simp
    then show ?thesis using "1.IH"[OF False] by auto
  qed
qed

lemma first_producer_continues:
  "d \<in> set (produced (exec (producer_thread 0) e xs)) \<Longrightarrow> consumer_continues d"
  by (auto simp add: producer_thread_def ITEMS_TO_PRODUCE_def producer_loop.simps
      consumer_continues_def)

lemma second_producer_continues:
  "d \<in> set (produced (exec (producer_thread 1) e xs)) \<Longrightarrow> consumer_continues d"
  by (auto simp add: producer_thread_def ITEMS_TO_PRODUCE_def producer_loop.simps
      consumer_continues_def)

subsection \<open>The consumer's loop\<close>

lemma bored_left_0: "bored_left 0 = 9999"
  by (simp add: bored_left_def CONSUMER_BORED_COUNT_def)

lemma bored_left_eq_0: "bored_left bc = 0 \<longleftrightarrow> bc + 1 = CONSUMER_BORED_COUNT"
  by (auto simp: bored_left_def unat_eq_0 algebra_simps)

lemma bored_left_Suc:
  "bc + 1 \<noteq> CONSUMER_BORED_COUNT \<Longrightarrow> bored_left bc = Suc (bored_left (bc + 1))"
proof -
  assume a: "bc + 1 \<noteq> CONSUMER_BORED_COUNT"
  then have nz: "CONSUMER_BORED_COUNT - 1 - bc \<noteq> 0" by (auto simp: algebra_simps)
  have eq: "CONSUMER_BORED_COUNT - 1 - (bc + 1) = (CONSUMER_BORED_COUNT - 1 - bc) - 1"
    by (simp only: diff_diff_eq add.commute)
  have "unat ((CONSUMER_BORED_COUNT - 1 - bc) - 1) = unat (CONSUMER_BORED_COUNT - 1 - bc) - 1"
    using nz by (rule unat_minus_one)
  moreover have "unat (CONSUMER_BORED_COUNT - 1 - bc) \<noteq> 0" using nz by (simp add: unat_eq_0)
  ultimately show ?thesis unfolding bored_left_def eq by arith
qed

text \<open>One round of the loop, as a run.\<close>

lemma exec_consumer_loop:
  "exec (consumer_loop bc d k) e xs =
   (if consumer_continues d then
      if bc + 1 = CONSUMER_BORED_COUNT then exec (k (bc + 1)) e xs
      else (if item1 d + 1 \<noteq> item2 d
            then [Called (Kprintf (Unexpected_data (item1 d) (item2 d)))] else []) @
           (case xs of [] \<Rightarrow> [Blocked]
            | x # xs' \<Rightarrow> Got x # exec (consumer_loop (bc + 1) x k) e xs')
    else exec (k bc) e xs)"
  by (subst consumer_loop.simps) simp

lemma exec_consumer_finish:
  "exec (consumer_finish bc) e xs =
     [Called (Kprintf (if bc = CONSUMER_BORED_COUNT then Consumer_bored
                       else Consumer_finished_normally)),
      Called (V consumer_finished), Returned]"
  by (simp add: consumer_finish_def)

lemma got_consumer_loop:
  "got (exec (consumer_loop bc d consumer_finish) e xs) =
     take (length (takeWhile consumer_continues (take (bored_left bc) (d # xs)))) xs"
proof (induction xs arbitrary: bc d)
  case Nil
  show ?case by (simp add: exec_consumer_loop exec_consumer_finish)
next
  case (Cons x xs)
  show ?case
  proof (cases "consumer_continues d \<and> bc + 1 \<noteq> CONSUMER_BORED_COUNT")
    case True
    then show ?thesis
      using Cons.IH[of "bc + 1" x] bored_left_Suc[of bc]
      by (simp add: exec_consumer_loop)
  next
    case False
    then show ?thesis
      using bored_left_eq_0[of bc]
      by (auto simp add: exec_consumer_loop exec_consumer_finish take_Cons')
  qed
qed

lemma data_errors_consumer_loop:
  "data_errors (exec (consumer_loop bc d consumer_finish) e xs) =
     map (\<lambda>x. (item1 x, item2 x)) (filter (\<lambda>x. item1 x + 1 \<noteq> item2 x)
       (takeWhile consumer_continues (take (bored_left bc) (d # xs))))"
proof (induction xs arbitrary: bc d)
  case Nil
  show ?case using bored_left_Suc[of bc] bored_left_eq_0[of bc]
    by (auto simp add: exec_consumer_loop exec_consumer_finish)
next
  case (Cons x xs)
  show ?case
  proof (cases "consumer_continues d \<and> bc + 1 \<noteq> CONSUMER_BORED_COUNT")
    case True
    then show ?thesis
      using Cons.IH[of "bc + 1" x] bored_left_Suc[of bc]
      by (simp add: exec_consumer_loop)
  next
    case False
    then show ?thesis
      using bored_left_eq_0[of bc]
      by (auto simp add: exec_consumer_loop exec_consumer_finish take_Cons')
  qed
qed

lemma consume_calls_consumer_loop:
  "consume_calls (exec (consumer_loop bc d consumer_finish) e xs) \<le> bored_left bc"
proof (induction xs arbitrary: bc d)
  case Nil
  show ?case using bored_left_Suc[of bc] 
    by (auto simp add: exec_consumer_loop exec_consumer_finish)
next
  case (Cons x xs)
  show ?case
    using Cons.IH[of "bc + 1" x] bored_left_Suc[of bc]
    by (auto simp add: exec_consumer_loop exec_consumer_finish)
qed

lemma finish_consumer_loop:
  "(\<exists>pre. exec (consumer_loop bc d consumer_finish) e xs = pre @ [Called (V consumer_finished), Returned]
       \<and> Called (V consumer_finished) \<notin> set pre \<and> Returned \<notin> set pre) \<or>
   (last (exec (consumer_loop bc d consumer_finish) e xs) = Blocked \<and>
      Called (V consumer_finished) \<notin> set (exec (consumer_loop bc d consumer_finish) e xs)
    \<and> length xs < bored_left bc)"
proof (induction xs arbitrary: bc d)
  case Nil
  show ?case using bored_left_Suc[of bc] 
    by (auto simp add: exec_consumer_loop exec_consumer_finish)
next
  case (Cons x xs)
  show ?case
  proof (cases "consumer_continues d \<and> bc + 1 \<noteq> CONSUMER_BORED_COUNT")
    case True
    define tr where "tr = exec (consumer_loop (bc + 1) x consumer_finish) e xs"
    define err where "err = (if item1 d + 1 \<noteq> item2 d
      then [Called (Kprintf (Unexpected_data (item1 d) (item2 d)))] else [])"
    have unfold: "exec (consumer_loop bc d consumer_finish) e (x # xs) = (err @ [Got x]) @ tr"
      using True by (simp add: exec_consumer_loop tr_def err_def)
    have err: "Called (V consumer_finished) \<notin> set (err @ [Got x])" "Returned \<notin> set (err @ [Got x])"
      by (simp_all add: err_def)
    have ne: "tr \<noteq> []" by (simp add: tr_def)
    from Cons.IH[of "bc + 1" x] show ?thesis unfolding tr_def[symmetric]
    proof
      assume "\<exists>pre. tr = pre @ [Called (V consumer_finished), Returned]
       \<and> Called (V consumer_finished) \<notin> set pre \<and> Returned \<notin> set pre"
      then obtain pre where p: "tr = pre @ [Called (V consumer_finished), Returned]"
       "Called (V consumer_finished) \<notin> set pre" "Returned \<notin> set pre" by blast
      have "exec (consumer_loop bc d consumer_finish) e (x # xs)
          = ((err @ [Got x]) @ pre) @ [Called (V consumer_finished), Returned]"
        unfolding unfold p(1) by simp
      moreover have "Called (V consumer_finished) \<notin> set ((err @ [Got x]) @ pre) \<and> Returned \<notin> set ((err @ [Got x]) @ pre)"
        using p(2,3) err by simp
      ultimately show ?thesis by blast
    next
      assume a: "last tr = Blocked \<and> Called (V consumer_finished) \<notin> set tr \<and> length xs < bored_left (bc + 1)"
      have "last (exec (consumer_loop bc d consumer_finish) e (x # xs)) = Blocked"
        unfolding unfold using a ne by (simp add: last_appendR del: append_assoc)
      moreover have "Called (V consumer_finished) \<notin> set (exec (consumer_loop bc d consumer_finish) e (x # xs))"
        unfolding unfold using a err by simp
      moreover have "length (x # xs) < bored_left bc"
        using a True bored_left_Suc[of bc] by simp
      ultimately show ?thesis by blast
    qed
  next
    case False
    then show ?thesis
      by (auto simp add: exec_consumer_loop exec_consumer_finish)
  qed
qed

lemma bored_consumer_loop:
  "bored_left bc \<le> length xs \<Longrightarrow> \<forall>x \<in> set (d # take (bored_left bc) xs). consumer_continues x \<Longrightarrow>
     Called (Kprintf Consumer_bored) \<in> set (exec (consumer_loop bc d consumer_finish) e xs) \<and>
     consume_calls (exec (consumer_loop bc d consumer_finish) e xs) = bored_left bc"
proof (induction xs arbitrary: bc d)
  case Nil
  then show ?case using bored_left_eq_0[of bc]
    by (auto simp add: exec_consumer_loop exec_consumer_finish)
next
  case (Cons x xs)
  show ?case
  proof (cases "bc + 1 = CONSUMER_BORED_COUNT")
    case True
    then show ?thesis using Cons.prems bored_left_eq_0[of bc]
    by (auto simp add: exec_consumer_loop exec_consumer_finish)
  next
    case False
    then show ?thesis using Cons.prems bored_left_Suc[of bc] Cons.IH[of "bc + 1" x]
    by (auto simp add: exec_consumer_loop exec_consumer_finish)
  qed
qed

lemma got_consumer_thread:
  "got (exec (consumer_thread t) e xs) =
     take (Suc (length (takeWhile consumer_continues (take (unat CONSUMER_BORED_COUNT - 1) xs)))) xs"
  using bored_left_0
  by (cases xs) (simp_all add: consumer_thread_def got_consumer_loop CONSUMER_BORED_COUNT_def)

lemma data_errors_consumer_thread:
  "data_errors (exec (consumer_thread t) e xs) =
     map (\<lambda>x. (item1 x, item2 x)) (filter (\<lambda>x. item1 x + 1 \<noteq> item2 x)
       (takeWhile consumer_continues (take (unat CONSUMER_BORED_COUNT - 1) xs)))"
  using bored_left_0
  by (cases xs) (simp_all add: consumer_thread_def data_errors_consumer_loop CONSUMER_BORED_COUNT_def)

section \<open>The claims about single threads\<close>

text \<open>
  C3 (the code differs). The claim: each producer thread calls \<^verbatim>\<open>producer_produce\<close> with a
  real item exactly \<^verbatim>\<open>ITEMS_TO_PRODUCE\<close> times before it signals \<^verbatim>\<open>producer_finished\<close>.
  The loop \<^verbatim>\<open>while(--items_to_go)\<close> decrements before its first test: with
  \<^verbatim>\<open>ITEMS_TO_PRODUCE\<close> at 30 the thread makes 29 calls, whatever its thread number.
\<close>

theorem producer_thread_produce_calls:
  "length (produced (exec (producer_thread thread_num) e xs)) = 29 \<and> unat ITEMS_TO_PRODUCE = 30"
  by (simp add: producer_thread_def produced_producer_loop ITEMS_TO_PRODUCE_def)

text \<open>
  C4 (the code differs). The claim: the consumer leaves its loop exactly when the item received
  has both components zero. The loop condition \<^verbatim>\<open>item1 != 0 && item2 != 0\<close> fails as soon
  as one component is zero: on the item (0, 7) the consumer stops and reports a normal end,
  without reading the items behind it.
\<close>

theorem consumer_thread_exits_on_one_zero:
  "exec (consumer_thread t) e (\<lparr>item1 = 0, item2 = 7\<rparr> # xs) =
     [Called (Kprintf Consumer_started), Got \<lparr>item1 = 0, item2 = 7\<rparr>,
      Called (Kprintf Consumer_finished_normally), Called (V consumer_finished), Returned]"
  by (simp add: consumer_thread_def exec_consumer_loop exec_consumer_finish consumer_continues_def CONSUMER_BORED_COUNT_def)

text \<open>
  C5. \<^verbatim>\<open>stop_consumer_threads\<close> calls \<^verbatim>\<open>producer_produce\<close> exactly \<^verbatim>\<open>NUM_CONSUMERS\<close>
  times, each time with the item (0, 0), and only then waits \<^verbatim>\<open>NUM_CONSUMERS\<close> times on
  \<^verbatim>\<open>consumer_finished\<close>; it makes no other call.
\<close>

theorem stop_consumer_threads_sentinels:
  "exec (stop_consumer_threads k) e xs =
     replicate NUM_CONSUMERS (Called (Produce \<lparr>item1 = 0, item2 = 0\<rparr>)) @
     replicate NUM_CONSUMERS (Called (P consumer_finished)) @ exec k e xs \<and>
   produced (exec (stop_consumer_threads Return) e xs) =
     replicate NUM_CONSUMERS \<lparr>item1 = 0, item2 = 0\<rparr>"
  by (simp add: stop_consumer_threads_def exec_repeat_from)

text \<open>
  C7. When \<^verbatim>\<open>sem_create\<close> fails for \<^verbatim>\<open>consumer_finished\<close> or for \<^verbatim>\<open>producer_finished\<close>,
  \<^verbatim>\<open>run_producerconsumer\<close> panics at once: the run is the start-up message, the
  allocations up to the failed one (each tried once) and the panic, so that
  \<^verbatim>\<open>producerconsumer_startup\<close> is not called and no thread is forked.
\<close>

theorem run_producerconsumer_alloc_failure:
  assumes "\<not> sem_ok e consumer_finished \<or> \<not> sem_ok e producer_finished"
  shows "exec run_producerconsumer e xs =
     (if sem_ok e consumer_finished
      then [Called (Kprintf Starting_up), Created consumer_finished 0 True,
            Created producer_finished 0 False, Panicked Couldnt_create_semaphore]
      else [Called (Kprintf Starting_up), Created consumer_finished 0 False,
            Panicked Couldnt_create_semaphore])"
  using assms by (auto simp add: run_producerconsumer_def)

theorem run_producerconsumer_alloc_failure_witness:
  "\<not> sem_ok \<lparr>sem_ok = (\<lambda>s. s = consumer_finished), fork_result = (\<lambda>ep n. 0), startup_ok = True\<rparr> producer_finished \<and>
   exec run_producerconsumer \<lparr>sem_ok = (\<lambda>s. s = consumer_finished), fork_result = (\<lambda>ep n. 0), startup_ok = True\<rparr> [] =
     [Called (Kprintf Starting_up), Created consumer_finished 0 True,
      Created producer_finished 0 False, Panicked Couldnt_create_semaphore]"
  using run_producerconsumer_alloc_failure
    [of "\<lparr>sem_ok = (\<lambda>s. s = consumer_finished), fork_result = (\<lambda>ep n. 0), startup_ok = True\<rparr>" "[]"]
  by simp

text \<open>
  C8 (amended). Every item a producer thread submits has \<^verbatim>\<open>item2 = item1 + 1\<close>. The data
  errors a consumer reports are exactly the items with \<^verbatim>\<open>item1 + 1 != item2\<close> among those
  it processes: the items received before the first one with a zero component and before
  the \<^verbatim>\<open>CONSUMER_BORED_COUNT\<close>-th one, on which it gives up without looking at the data.
  So when every item delivered satisfies the relation, no data error is reported.
\<close>

theorem payload_relation_checked:
  "(\<forall>d \<in> set (produced (exec (producer_thread thread_num) e xs)). item2 d = item1 d + 1) \<and>
   data_errors (exec (consumer_thread thread_num') e' ys) =
     map (\<lambda>x. (item1 x, item2 x)) (filter (\<lambda>x. item1 x + 1 \<noteq> item2 x)
       (takeWhile consumer_continues (take (unat CONSUMER_BORED_COUNT - 1) ys))) \<and>
   ((\<forall>x \<in> set ys. item1 x + 1 = item2 x) \<longrightarrow>
      data_errors (exec (consumer_thread thread_num') e' ys) = [])"
proof (intro conjI ballI impI)
  fix d assume "d \<in> set (produced (exec (producer_thread thread_num) e xs))"
  then have "d \<in> set (produced (exec (producer_loop ITEMS_TO_PRODUCE thread_num
         (Do (Kprintf Producer_finished) (Do (V producer_finished) Return))) e xs))"
    by (simp add: producer_thread_def)
  from producer_loop_relation[OF this] show "item2 d = item1 d + 1" by simp
next
  show "data_errors (exec (consumer_thread thread_num') e' ys) =
     map (\<lambda>x. (item1 x, item2 x)) (filter (\<lambda>x. item1 x + 1 \<noteq> item2 x)
       (takeWhile consumer_continues (take (unat CONSUMER_BORED_COUNT - 1) ys)))"
    by (rule data_errors_consumer_thread)
next
  assume a: "\<forall>x \<in> set ys. item1 x + 1 = item2 x"
  have "set (takeWhile consumer_continues (take (unat CONSUMER_BORED_COUNT - 1) ys)) \<subseteq> set ys"
    by (auto dest!: set_takeWhileD in_set_takeD)
  with a have "filter (\<lambda>x. item1 x + 1 \<noteq> item2 x)
       (takeWhile consumer_continues (take (unat CONSUMER_BORED_COUNT - 1) ys)) = []"
    by (auto simp: filter_empty_conv)
  then show "data_errors (exec (consumer_thread thread_num') e' ys) = []"
    unfolding data_errors_consumer_thread by simp
qed

theorem payload_relation_checked_witness:
  "\<lparr>item1 = 1029, item2 = 1030\<rparr> \<in> set (produced (exec (producer_thread 1) all_succeed [])) \<and>
   item2 \<lparr>item1 = 1029, item2 = 1030\<rparr> = item1 \<lparr>item1 = 1029, item2 = 1030\<rparr> + 1 \<and>
   data_errors (exec (consumer_thread 0) all_succeed
      [\<lparr>item1 = 3, item2 = 7\<rparr>, \<lparr>item1 = 1, item2 = 2\<rparr>, \<lparr>item1 = 0, item2 = 0\<rparr>]) = [(3, 7)] \<and>
   data_errors (exec (consumer_thread 0) all_succeed
      [\<lparr>item1 = 3, item2 = 4\<rparr>, \<lparr>item1 = 1, item2 = 2\<rparr>]) = []"
proof -
  have a: "\<lparr>item1 = 1029, item2 = 1030\<rparr> \<in> set (produced (exec (producer_thread 1) all_succeed []))"
    by (simp add: producer_thread_def ITEMS_TO_PRODUCE_def producer_loop.simps)
  have b: "\<forall>x \<in> set [\<lparr>item1 = 3, item2 = 4\<rparr>, \<lparr>item1 = 1, item2 = (2::cint)\<rparr>]. item1 x + 1 = item2 x"
    by simp
  from payload_relation_checked[of 1 all_succeed "[]" 0 all_succeed
      "[\<lparr>item1 = 3, item2 = 7\<rparr>, \<lparr>item1 = 1, item2 = 2\<rparr>, \<lparr>item1 = 0, item2 = 0\<rparr>]"]
    payload_relation_checked[of 1 all_succeed "[]" 0 all_succeed
      "[\<lparr>item1 = 3, item2 = 4\<rparr>, \<lparr>item1 = 1, item2 = 2\<rparr>]"] a b
  show ?thesis
    by (simp add: consumer_continues_def CONSUMER_BORED_COUNT_def)
qed

text \<open>
  The claim as first stated, "for every received item not treated as end-of-stream, a data
  error is reported if and only if \<^verbatim>\<open>item1 + 1 != item2\<close>", fails on the item on which the
  consumer gets bored: after \<^verbatim>\<open>CONSUMER_BORED_COUNT - 1\<close> well-formed items, the item (1, 5)
  is received, is no end-of-stream item and breaks the relation, and no error is reported.
\<close>

theorem consumer_unchecked_item_counterexample:
  "Got \<lparr>item1 = 1, item2 = 5\<rparr> \<in> set (exec (consumer_thread 0) all_succeed
      (replicate (unat CONSUMER_BORED_COUNT - 1) \<lparr>item1 = 1, item2 = 2\<rparr> @ [\<lparr>item1 = 1, item2 = 5\<rparr>])) \<and>
   consumer_continues \<lparr>item1 = 1, item2 = 5\<rparr> \<and>
   item1 \<lparr>item1 = 1, item2 = 5\<rparr> + 1 \<noteq> item2 \<lparr>item1 = 1, item2 = 5\<rparr> \<and>
   data_errors (exec (consumer_thread 0) all_succeed
      (replicate (unat CONSUMER_BORED_COUNT - 1) \<lparr>item1 = 1, item2 = 2\<rparr> @ [\<lparr>item1 = 1, item2 = 5\<rparr>])) = []"
proof -
  define n where "n = unat CONSUMER_BORED_COUNT - 1"
  let ?xs = "replicate n \<lparr>item1 = 1, item2 = 2 :: cint\<rparr> @ [\<lparr>item1 = 1, item2 = 5\<rparr>]"
  have tw: "takeWhile consumer_continues (take n ?xs) = replicate n \<lparr>item1 = 1, item2 = 2\<rparr>"
    by (simp add: consumer_continues_def takeWhile_replicate)
  have "got (exec (consumer_thread 0) all_succeed ?xs) = ?xs"
    unfolding got_consumer_thread n_def[symmetric] tw by simp
  then have "\<lparr>item1 = 1, item2 = 5\<rparr> \<in> set (got (exec (consumer_thread 0) all_succeed ?xs))"
    by simp
  then have "Got \<lparr>item1 = 1, item2 = 5\<rparr> \<in> set (exec (consumer_thread 0) all_succeed ?xs)"
    by (rule got_set)
  moreover have "data_errors (exec (consumer_thread 0) all_succeed ?xs) = []"
    unfolding data_errors_consumer_thread n_def[symmetric] tw by simp
  ultimately show ?thesis unfolding n_def by (simp add: consumer_continues_def)
qed

text \<open>
  C9. Whatever \<^verbatim>\<open>consumer_consume\<close> returns, \<^verbatim>\<open>consumer_thread\<close> calls it at most
  \<^verbatim>\<open>CONSUMER_BORED_COUNT\<close> times. Its run either ends with the one signal on
  \<^verbatim>\<open>consumer_finished\<close> followed by the return, or is stuck in a call of
  \<^verbatim>\<open>consumer_consume\<close> that does not return, which needs fewer than
  \<^verbatim>\<open>CONSUMER_BORED_COUNT\<close> items to have been returned. When \<^verbatim>\<open>CONSUMER_BORED_COUNT\<close>
  items without a zero component are returned, the thread reports that it is bored after
  exactly \<^verbatim>\<open>CONSUMER_BORED_COUNT\<close> calls.
\<close>

theorem consumer_thread_bounded:
  "consume_calls (exec (consumer_thread t) e xs) \<le> unat CONSUMER_BORED_COUNT \<and>
   ((\<exists>pre. exec (consumer_thread t) e xs = pre @ [Called (V consumer_finished), Returned] \<and>
        Called (V consumer_finished) \<notin> set pre \<and> Returned \<notin> set pre) \<or>
    (last (exec (consumer_thread t) e xs) = Blocked \<and>
        Called (V consumer_finished) \<notin> set (exec (consumer_thread t) e xs) \<and>
        length xs < unat CONSUMER_BORED_COUNT)) \<and>
   (unat CONSUMER_BORED_COUNT \<le> length xs \<and>
    (\<forall>x \<in> set (take (unat CONSUMER_BORED_COUNT) xs). consumer_continues x) \<longrightarrow>
      Called (Kprintf Consumer_bored) \<in> set (exec (consumer_thread t) e xs) \<and>
      consume_calls (exec (consumer_thread t) e xs) = unat CONSUMER_BORED_COUNT)"
proof (cases xs)
  case Nil
  then show ?thesis
    by (simp add: consumer_thread_def CONSUMER_BORED_COUNT_def)
next
  case (Cons d ds)
  have B: "unat CONSUMER_BORED_COUNT = Suc (bored_left 0)"
    by (simp add: bored_left_0 CONSUMER_BORED_COUNT_def)
  have ex: "exec (consumer_thread t) e xs =
      [Called (Kprintf Consumer_started), Got d] @ exec (consumer_loop 0 d consumer_finish) e ds"
    by (simp add: Cons consumer_thread_def)
  have 1: "consume_calls (exec (consumer_thread t) e xs) \<le> unat CONSUMER_BORED_COUNT"
    unfolding ex B using consume_calls_consumer_loop[of 0 d e ds] by simp
  have 2: "(\<exists>pre. exec (consumer_thread t) e xs = pre @ [Called (V consumer_finished), Returned] \<and>
        Called (V consumer_finished) \<notin> set pre \<and> Returned \<notin> set pre) \<or>
    (last (exec (consumer_thread t) e xs) = Blocked \<and>
        Called (V consumer_finished) \<notin> set (exec (consumer_thread t) e xs) \<and>
        length xs < unat CONSUMER_BORED_COUNT)"
    using finish_consumer_loop[of 0 d e ds]
  proof
    assume "\<exists>pre. exec (consumer_loop 0 d consumer_finish) e ds = pre @ [Called (V consumer_finished), Returned]
       \<and> Called (V consumer_finished) \<notin> set pre \<and> Returned \<notin> set pre"
    then obtain pre where p: "exec (consumer_loop 0 d consumer_finish) e ds = pre @ [Called (V consumer_finished), Returned]"
       "Called (V consumer_finished) \<notin> set pre" "Returned \<notin> set pre" by blast
    have "exec (consumer_thread t) e xs = ([Called (Kprintf Consumer_started), Got d] @ pre) @ [Called (V consumer_finished), Returned]"
      unfolding ex p(1) by simp
    moreover have "Called (V consumer_finished) \<notin> set ([Called (Kprintf Consumer_started), Got d] @ pre)
        \<and> Returned \<notin> set ([Called (Kprintf Consumer_started), Got d] @ pre)"
      using p(2,3) by simp
    ultimately show ?thesis by blast
  next
    assume a: "last (exec (consumer_loop 0 d consumer_finish) e ds) = Blocked \<and>
      Called (V consumer_finished) \<notin> set (exec (consumer_loop 0 d consumer_finish) e ds)
    \<and> length ds < bored_left 0"
    have "last (exec (consumer_thread t) e xs) = Blocked"
      unfolding ex using a by (simp add: last_appendR del: append_assoc)
    moreover have "Called (V consumer_finished) \<notin> set (exec (consumer_thread t) e xs)"
      unfolding ex using a by simp
    moreover have "length xs < unat CONSUMER_BORED_COUNT"
      unfolding B Cons using a by simp
    ultimately show ?thesis by blast
  qed
  have 3: "unat CONSUMER_BORED_COUNT \<le> length xs \<and>
    (\<forall>x \<in> set (take (unat CONSUMER_BORED_COUNT) xs). consumer_continues x) \<longrightarrow>
      Called (Kprintf Consumer_bored) \<in> set (exec (consumer_thread t) e xs) \<and>
      consume_calls (exec (consumer_thread t) e xs) = unat CONSUMER_BORED_COUNT"
  proof
    assume a: "unat CONSUMER_BORED_COUNT \<le> length xs \<and>
      (\<forall>x \<in> set (take (unat CONSUMER_BORED_COUNT) xs). consumer_continues x)"
    then have "bored_left 0 \<le> length ds" "\<forall>x \<in> set (d # take (bored_left 0) ds). consumer_continues x"
      unfolding B Cons by simp_all
    from bored_consumer_loop[OF this, of e] show "Called (Kprintf Consumer_bored) \<in> set (exec (consumer_thread t) e xs) \<and>
      consume_calls (exec (consumer_thread t) e xs) = unat CONSUMER_BORED_COUNT"
      unfolding ex B by simp
  qed
  from 1 2 3 show ?thesis by blast
qed

theorem consumer_thread_bounded_witness:
  "unat CONSUMER_BORED_COUNT \<le> length (replicate (unat CONSUMER_BORED_COUNT) \<lparr>item1 = 1, item2 = 2 :: cint\<rparr>) \<and>
   list_all consumer_continues (take (unat CONSUMER_BORED_COUNT) (replicate (unat CONSUMER_BORED_COUNT) \<lparr>item1 = 1, item2 = 2\<rparr>)) \<and>
   Called (Kprintf Consumer_bored) \<in> set (exec (consumer_thread 0) all_succeed (replicate (unat CONSUMER_BORED_COUNT) \<lparr>item1 = 1, item2 = 2\<rparr>)) \<and>
   consume_calls (exec (consumer_thread 0) all_succeed (replicate (unat CONSUMER_BORED_COUNT) \<lparr>item1 = 1, item2 = 2\<rparr>)) = 10000"
proof -
  define n where "n = unat CONSUMER_BORED_COUNT"
  have n: "n = 10000" by (simp add: n_def CONSUMER_BORED_COUNT_def)
  have a: "n \<le> length (replicate n \<lparr>item1 = 1, item2 = 2 :: cint\<rparr>)"
    by simp
  have b: "\<forall>x \<in> set (take n (replicate n \<lparr>item1 = 1, item2 = 2\<rparr>)). consumer_continues x"
    by (simp add: consumer_continues_def)
  from consumer_thread_bounded[of 0 all_succeed "replicate n \<lparr>item1 = 1, item2 = 2\<rparr>", folded n_def] a b
  have "Called (Kprintf Consumer_bored) \<in> set (exec (consumer_thread 0) all_succeed (replicate n \<lparr>item1 = 1, item2 = 2\<rparr>)) \<and>
   consume_calls (exec (consumer_thread 0) all_succeed (replicate n \<lparr>item1 = 1, item2 = 2\<rparr>)) = n"
    by blast
  with a b show ?thesis unfolding list_all_iff n_def[symmetric] using n by blast
qed

text \<open>
  C10. With \<^verbatim>\<open>NUM_PRODUCERS = 2\<close> and \<^verbatim>\<open>ITEMS_TO_PRODUCE = 30\<close>, every item submitted by the
  producer thread forked with number \<open>i < NUM_PRODUCERS\<close> has both components nonzero, so
  the consumer's loop condition holds for it: no item of a producer ends a consumer's loop.
\<close>

theorem producer_items_never_sentinel:
  assumes "i < NUM_PRODUCERS" and "d \<in> set (produced (exec (producer_thread (of_nat i)) e xs))"
  shows "item1 d \<noteq> 0 \<and> item2 d \<noteq> 0 \<and> consumer_continues d"
proof -
  from assms(1) have "i = 0 \<or> i = 1" by (auto simp: NUM_PRODUCERS_def)
  then have "consumer_continues d" using assms(2) first_producer_continues second_producer_continues by auto
  then show ?thesis by (simp add: consumer_continues_def)
qed

theorem producer_items_never_sentinel_witness:
  "(0::nat) < NUM_PRODUCERS \<and> \<lparr>item1 = 29, item2 = 30\<rparr> \<in> set (produced (exec (producer_thread (of_nat 0)) all_succeed []))
   \<and> consumer_continues \<lparr>item1 = 29, item2 = 30\<rparr>"
proof -
  have a: "(0::nat) < NUM_PRODUCERS" by (simp add: NUM_PRODUCERS_def)
  have b: "\<lparr>item1 = 29, item2 = 30\<rparr> \<in> set (produced (exec (producer_thread (of_nat 0)) all_succeed []))"
    by (simp add: producer_thread_def ITEMS_TO_PRODUCE_def producer_loop.simps)
  from producer_items_never_sentinel[OF a b] a b show ?thesis by simp
qed

section \<open>The threads running together\<close>

subsection \<open>The synchronisation core\<close>

text \<open>
  The core (\<^verbatim>\<open>producerconsumer.c\<close>) is not among the sources; the driver only calls it.

  Modelled from the spec: the bounded buffer behind \<^verbatim>\<open>producer_produce\<close> and
  \<^verbatim>\<open>consumer_consume\<close>, as sections 3, 4.1 and 4.2 describe it. A ring of \<open>C\<close> slots, each
  empty or occupied by an item, with head and tail indices modulo \<open>C\<close>; one counting
  signal for the available items (initially 0), one for the available capacity (initially
  \<open>C\<close>), and one mutual-exclusion region around the slot access. A producer waits on
  the capacity signal, enters the region, writes the slot at the tail and advances the
  tail, leaves the region and signals the availability signal; a consumer is the mirror
  image. Each of these five steps is atomic and the steps of different threads
  interleave freely. The capacity \<open>C\<close> (\<^verbatim>\<open>BUFFER_SIZE\<close> of the absent header) is a
  parameter.
\<close>

text \<open>How far a thread has got inside its current call of the core.\<close>

datatype stage = Idle | Reserved | Inside | Slot_done pc_data | Released pc_data

record core =
  slots :: "pc_data option list"
  head :: nat
  tail :: nat
  items_available :: nat
  capacity_available :: nat
  exclusion :: bool

definition startup :: "nat \<Rightarrow> core" where
  "startup C = \<lparr>slots = replicate C None, head = 0, tail = 0,
     items_available = 0, capacity_available = C, exclusion = False\<rparr>"

text \<open>
  Modelled from the spec: the condition under which sections 3, 4.4 and 7 allow the
  shutdown. No item is available, every unit of capacity has been given back, so that no
  call of the core holds a slot or an item, and nobody is inside the region.
\<close>

definition drained :: "core \<Rightarrow> bool" where
  "drained c \<longleftrightarrow> items_available c = 0 \<and> capacity_available c = length (slots c) \<and> \<not> exclusion c"

fun produce_step :: "nat \<Rightarrow> pc_data \<Rightarrow> stage \<Rightarrow> core \<Rightarrow> (stage \<times> core) option" where
  "produce_step C d Idle c =
     (if capacity_available c = 0 then None
      else Some (Reserved, c\<lparr>capacity_available := capacity_available c - 1\<rparr>))"
| "produce_step C d Reserved c =
     (if exclusion c then None else Some (Inside, c\<lparr>exclusion := True\<rparr>))"
| "produce_step C d Inside c =
     (if tail c < length (slots c)
      then Some (Slot_done d, c\<lparr>slots := (slots c)[tail c := Some d], tail := (tail c + 1) mod C\<rparr>)
      else None)"
| "produce_step C d (Slot_done d') c = Some (Released d', c\<lparr>exclusion := False\<rparr>)"
| "produce_step C d (Released d') c =
     Some (Idle, c\<lparr>items_available := items_available c + 1\<rparr>)"

fun consume_step :: "nat \<Rightarrow> stage \<Rightarrow> core \<Rightarrow> (stage \<times> core) option" where
  "consume_step C Idle c =
     (if items_available c = 0 then None
      else Some (Reserved, c\<lparr>items_available := items_available c - 1\<rparr>))"
| "consume_step C Reserved c =
     (if exclusion c then None else Some (Inside, c\<lparr>exclusion := True\<rparr>))"
| "consume_step C Inside c =
     (if head c < length (slots c) then
        (case slots c ! head c of
           None \<Rightarrow> None
         | Some d \<Rightarrow> Some (Slot_done d, c\<lparr>slots := (slots c)[head c := None], head := (head c + 1) mod C\<rparr>))
      else None)"
| "consume_step C (Slot_done d) c = Some (Released d, c\<lparr>exclusion := False\<rparr>)"
| "consume_step C (Released d) c =
     Some (Idle, c\<lparr>capacity_available := capacity_available c + 1\<rparr>)"

subsection \<open>The system\<close>

text \<open>
  A thread is the code it still has to run, its stage inside the current call of the
  core, the function and argument it was forked with (none for the main thread), and
  the calls it has completed so far.
\<close>

record thread =
  origin :: "(entrypoint \<times> cint) option"
  code :: prog
  stage :: stage
  past :: "event list"

record system =
  threads :: "thread list"
  sems :: "sem \<Rightarrow> nat option"
  store :: "core option"
  panicked :: bool
  misused :: bool

definition entry_code :: "entrypoint \<Rightarrow> cint \<Rightarrow> prog" where
  "entry_code ep n = (case ep of Producer_entry \<Rightarrow> producer_thread n | Consumer_entry \<Rightarrow> consumer_thread n)"

definition new_thread :: "entrypoint \<Rightarrow> cint \<Rightarrow> thread" where
  "new_thread ep n = \<lparr>origin = Some (ep, n), code = entry_code ep n, stage = Idle, past = []\<rparr>"

definition returned :: "nat \<Rightarrow> event \<Rightarrow> prog \<Rightarrow> system \<Rightarrow> system" where
  "returned t ev p s =
     s\<lparr>threads := (threads s)[t := (threads s ! t)\<lparr>code := p, stage := Idle,
          past := past (threads s ! t) @ [ev]\<rparr>]\<rparr>"

definition staged :: "nat \<Rightarrow> stage \<Rightarrow> system \<Rightarrow> system" where
  "staged t st s = s\<lparr>threads := (threads s)[t := (threads s ! t)\<lparr>stage := st\<rparr>]\<rparr>"

text \<open>
  Modelled from the spec: the counting semaphores of the kernel (\<^verbatim>\<open>P\<close>, \<^verbatim>\<open>V\<close>,
  \<^verbatim>\<open>sem_create\<close>, \<^verbatim>\<open>sem_destroy\<close>; their code is not among the sources) follow the
  glossary's counting signal: a non-negative count, \<^verbatim>\<open>V\<close> adds one, \<^verbatim>\<open>P\<close> waits until the
  count is positive and takes one. A thread that waits has no step. \<^verbatim>\<open>thread_fork\<close>
  starts a thread that runs the given function on the given number.

  Modelled from the spec: the lifecycle of the core (\<^verbatim>\<open>producerconsumer_startup\<close> and
  \<^verbatim>\<open>producerconsumer_shutdown\<close>, sections 4.4 and 7). The startup allocates the store, and
  a failure of its allocations is fatal: the kernel panics. The shutdown releases the store
  when it is drained; a shutdown of a store that is not drained, or that does not exist,
  is a usage error, which is reported (the flag \<open>misused\<close>) and leaves the store as it is.
\<close>

fun do_step :: "env \<Rightarrow> nat \<Rightarrow> nat \<Rightarrow> action \<Rightarrow> prog \<Rightarrow> system \<Rightarrow> system option" where
  "do_step e C t (Kprintf m) p s = Some (returned t (Called (Kprintf m)) p s)"
| "do_step e C t (V sm) p s =
     (case sems s sm of
        None \<Rightarrow> None
      | Some n \<Rightarrow> Some ((returned t (Called (V sm)) p s)\<lparr>sems := (sems s)(sm \<mapsto> n + 1)\<rparr>))"
| "do_step e C t (P sm) p s =
     (case sems s sm of
        None \<Rightarrow> None
      | Some n \<Rightarrow> if n = 0 then None
                  else Some ((returned t (Called (P sm)) p s)\<lparr>sems := (sems s)(sm \<mapsto> n - 1)\<rparr>))"
| "do_step e C t Startup p s =
     (if startup_ok e then Some ((returned t (Called Startup) p s)\<lparr>store := Some (startup C)\<rparr>)
      else Some (s\<lparr>panicked := True\<rparr>))"
| "do_step e C t Shutdown p s =
     (case store s of
        None \<Rightarrow> Some ((returned t (Called Shutdown) p s)\<lparr>misused := True\<rparr>)
      | Some c \<Rightarrow>
          if drained c then Some ((returned t (Called Shutdown) p s)\<lparr>store := None\<rparr>)
          else Some ((returned t (Called Shutdown) p s)\<lparr>misused := True\<rparr>))"
| "do_step e C t (Sem_destroy sm) p s =
     Some ((returned t (Called (Sem_destroy sm)) p s)\<lparr>sems := (sems s)(sm := None)\<rparr>)"
| "do_step e C t (Produce d) p s =
     (case store s of
        None \<Rightarrow> None
      | Some c \<Rightarrow>
          (case produce_step C d (stage (threads s ! t)) c of
             None \<Rightarrow> None
           | Some (st, c') \<Rightarrow>
               Some ((case stage (threads s ! t) of
                        Released d' \<Rightarrow> returned t (Called (Produce d)) p s
                      | _ \<Rightarrow> staged t st s)\<lparr>store := Some c'\<rparr>)))"

text \<open>
  One atomic step of thread \<open>t\<close>; \<open>None\<close> when the thread is blocked, has returned, or
  the kernel has panicked.
\<close>

definition step :: "env \<Rightarrow> nat \<Rightarrow> nat \<Rightarrow> system \<Rightarrow> system option" where
  "step e C t s =
     (if panicked s \<or> length (threads s) \<le> t then None
      else
        (case code (threads s ! t) of
           Return \<Rightarrow> None
         | Panic m \<Rightarrow> Some (s\<lparr>panicked := True\<rparr>)
         | Do a p \<Rightarrow> do_step e C t a p s
         | Consume f \<Rightarrow>
             (case store s of
                None \<Rightarrow> None
              | Some c \<Rightarrow>
                  (case consume_step C (stage (threads s ! t)) c of
                     None \<Rightarrow> None
                   | Some (st, c') \<Rightarrow>
                       Some ((case stage (threads s ! t) of
                                Released d \<Rightarrow> returned t (Got d) (f d) s
                              | _ \<Rightarrow> staged t st s)\<lparr>store := Some c'\<rparr>)))
         | Sem_create sm n f \<Rightarrow>
             Some ((returned t (Created sm n (sem_ok e sm)) (f (sem_ok e sm)) s)
                    \<lparr>sems := (if sem_ok e sm then (sems s)(sm \<mapsto> n) else sems s)\<rparr>)
         | Thread_fork ep n f \<Rightarrow>
             (let s' = returned t (Forked ep n (fork_result e ep n)) (f (fork_result e ep n)) s
              in Some (if fork_result e ep n = 0
                       then s'\<lparr>threads := threads s' @ [new_thread ep n]\<rparr> else s'))))"

text \<open>The system at the call of \<^verbatim>\<open>run_producerconsumer\<close>: the main thread alone.\<close>

definition boot :: system where
  "boot = \<lparr>threads = [\<lparr>origin = None, code = run_producerconsumer, stage = Idle, past = []\<rparr>],
            sems = (\<lambda>sm. None), store = None, panicked = False, misused = False\<rparr>"

text \<open>
  A schedule is the list of the threads chosen to step, in order; a choice that cannot
  step is skipped. The reachable states are the results of all schedules.
\<close>

fun run :: "env \<Rightarrow> nat \<Rightarrow> nat list \<Rightarrow> system \<Rightarrow> system" where
  "run e C [] s = s"
| "run e C (t # ts) s = (case step e C t s of None \<Rightarrow> run e C ts s | Some s' \<Rightarrow> run e C ts s')"

lemma threads_returned [simp]:
  "threads (returned t ev p s) = (threads s)[t := (threads s ! t)\<lparr>code := p, stage := Idle,
          past := past (threads s ! t) @ [ev]\<rparr>]"
  and sems_returned [simp]: "sems (returned t ev p s) = sems s"
  and store_returned [simp]: "store (returned t ev p s) = store s"
  and panicked_returned [simp]: "panicked (returned t ev p s) = panicked s"
  by (simp_all add: returned_def)

lemma threads_staged [simp]:
  "threads (staged t st s) = (threads s)[t := (threads s ! t)\<lparr>stage := st\<rparr>]"
  and sems_staged [simp]: "sems (staged t st s) = sems s"
  and store_staged [simp]: "store (staged t st s) = store s"
  and panicked_staged [simp]: "panicked (staged t st s) = panicked s"
  by (simp_all add: staged_def)

lemma step_cases [consumes 1, case_names Panic Kprintf V P Startup Shutdown Destroy
    Produce_stage Produce_return Consume_stage Consume_return Create Fork_ok Fork_fail
    Startup_fail Shutdown_misuse]:
  assumes "step e C t s = Some s'"
  obtains
    (Panic) m where "t < length (threads s)" "\<not> panicked s"
      "code (threads s ! t) = Panic m" "s' = s\<lparr>panicked := True\<rparr>"
  | (Kprintf) m p where "t < length (threads s)" "\<not> panicked s"
      "code (threads s ! t) = Do (Kprintf m) p" "s' = returned t (Called (Kprintf m)) p s"
  | (V) sm p n where "t < length (threads s)" "\<not> panicked s"
      "code (threads s ! t) = Do (V sm) p" "sems s sm = Some n"
      "s' = (returned t (Called (V sm)) p s)\<lparr>sems := (sems s)(sm \<mapsto> n + 1)\<rparr>"
  | (P) sm p n where "t < length (threads s)" "\<not> panicked s"
      "code (threads s ! t) = Do (P sm) p" "sems s sm = Some (Suc n)"
      "s' = (returned t (Called (P sm)) p s)\<lparr>sems := (sems s)(sm \<mapsto> n)\<rparr>"
  | (Startup) p where "t < length (threads s)" "\<not> panicked s"
      "code (threads s ! t) = Do Startup p"
      "s' = (returned t (Called Startup) p s)\<lparr>store := Some (startup C)\<rparr>" "startup_ok e"
  | (Shutdown) p c where "t < length (threads s)" "\<not> panicked s"
      "code (threads s ! t) = Do Shutdown p"
      "s' = (returned t (Called Shutdown) p s)\<lparr>store := None\<rparr>"
      "store s = Some c" "drained c"
  | (Destroy) sm p where "t < length (threads s)" "\<not> panicked s"
      "code (threads s ! t) = Do (Sem_destroy sm) p"
      "s' = (returned t (Called (Sem_destroy sm)) p s)\<lparr>sems := (sems s)(sm := None)\<rparr>"
  | (Produce_stage) d p c st c' where "t < length (threads s)" "\<not> panicked s"
      "code (threads s ! t) = Do (Produce d) p" "store s = Some c"
      "produce_step C d (stage (threads s ! t)) c = Some (st, c')"
      "\<forall>d'. stage (threads s ! t) \<noteq> Released d'" "st \<noteq> Idle"
      "s' = (staged t st s)\<lparr>store := Some c'\<rparr>"
  | (Produce_return) d p c d' where "t < length (threads s)" "\<not> panicked s"
      "code (threads s ! t) = Do (Produce d) p" "store s = Some c"
      "stage (threads s ! t) = Released d'"
      "s' = (returned t (Called (Produce d)) p s)
              \<lparr>store := Some (c\<lparr>items_available := items_available c + 1\<rparr>)\<rparr>"
  | (Consume_stage) f c st c' where "t < length (threads s)" "\<not> panicked s"
      "code (threads s ! t) = Consume f" "store s = Some c"
      "consume_step C (stage (threads s ! t)) c = Some (st, c')"
      "\<forall>d'. stage (threads s ! t) \<noteq> Released d'" "st \<noteq> Idle"
      "s' = (staged t st s)\<lparr>store := Some c'\<rparr>"
  | (Consume_return) f c d where "t < length (threads s)" "\<not> panicked s"
      "code (threads s ! t) = Consume f" "store s = Some c"
      "stage (threads s ! t) = Released d"
      "s' = (returned t (Got d) (f d) s)
              \<lparr>store := Some (c\<lparr>capacity_available := capacity_available c + 1\<rparr>)\<rparr>"
  | (Create) sm n f where "t < length (threads s)" "\<not> panicked s"
      "code (threads s ! t) = Sem_create sm n f"
      "s' = (returned t (Created sm n (sem_ok e sm)) (f (sem_ok e sm)) s)
              \<lparr>sems := (if sem_ok e sm then (sems s)(sm \<mapsto> n) else sems s)\<rparr>"
  | (Fork_ok) ep n f where "t < length (threads s)" "\<not> panicked s"
      "code (threads s ! t) = Thread_fork ep n f" "fork_result e ep n = 0"
      "s' = (returned t (Forked ep n 0) (f 0) s)
              \<lparr>threads := threads (returned t (Forked ep n 0) (f 0) s) @ [new_thread ep n]\<rparr>"
  | (Fork_fail) ep n f where "t < length (threads s)" "\<not> panicked s"
      "code (threads s ! t) = Thread_fork ep n f" "fork_result e ep n \<noteq> 0"
      "s' = returned t (Forked ep n (fork_result e ep n)) (f (fork_result e ep n)) s"
  | (Startup_fail) p where "t < length (threads s)" "\<not> panicked s"
      "code (threads s ! t) = Do Startup p" "\<not> startup_ok e" "s' = s\<lparr>panicked := True\<rparr>"
  | (Shutdown_misuse) p where "t < length (threads s)" "\<not> panicked s"
      "code (threads s ! t) = Do Shutdown p"
      "s' = (returned t (Called Shutdown) p s)\<lparr>misused := True\<rparr>"
      "\<forall>c. store s = Some c \<longrightarrow> \<not> drained c"
proof -
  from assms have t: "t < length (threads s)" and np: "\<not> panicked s"
    by (auto simp: step_def split: if_splits)
  show ?thesis
  proof (cases "code (threads s ! t)")
    case Return
    with assms t np show ?thesis by (simp add: step_def)
  next
    case (Panic m)
    with assms t np show ?thesis using that(1) by (simp add: step_def)
  next
    case (Do a p)
    show ?thesis
    proof (cases a)
      case (Kprintf m)
      with Do assms t np show ?thesis using that(2) by (simp add: step_def)
    next
      case (Produce d)
      with Do assms t np obtain c st c' where c: "store s = Some c"
        "produce_step C d (stage (threads s ! t)) c = Some (st, c')"
        by (auto simp: step_def split: option.splits)
      show ?thesis
      proof (cases "stage (threads s ! t)")
        case (Released d')
        with c Do Produce assms t np show ?thesis using that(9)[of d p c d']
          by (auto simp: step_def)
      next
        case Idle
        with c Do Produce assms t np show ?thesis using that(8)[of d p c st c']
          by (auto simp: step_def split: if_splits)
      next
        case Reserved
        with c Do Produce assms t np show ?thesis using that(8)[of d p c st c']
          by (auto simp: step_def split: if_splits)
      next
        case Inside
        with c Do Produce assms t np show ?thesis using that(8)[of d p c st c']
          by (auto simp: step_def split: if_splits)
      next
        case (Slot_done d')
        with c Do Produce assms t np show ?thesis using that(8)[of d p c st c']
          by (auto simp: step_def split: if_splits)
      qed
    next
      case (V sm)
      with Do assms t np show ?thesis using that(3)
        by (auto simp: step_def split: option.splits)
    next
      case (P sm)
      with Do assms t np show ?thesis using that(4)[of sm p]
        by (auto simp: step_def gr0_conv_Suc split: option.splits if_splits)
    next
      case Startup
      with Do assms t np show ?thesis using that(5)[of p] that(15)[of p]
        by (cases "startup_ok e") (simp_all add: step_def)
    next
      case Shutdown
      with Do assms t np show ?thesis using that(6)[of p] that(16)[of p]
        by (cases "store s") (auto simp add: step_def split: if_splits)
    next
      case (Sem_destroy sm)
      with Do assms t np show ?thesis using that(7) by (simp add: step_def)
    qed
  next
    case (Consume f)
    with assms t np obtain c st c' where c: "store s = Some c"
        "consume_step C (stage (threads s ! t)) c = Some (st, c')"
        by (auto simp: step_def split: option.splits)
    show ?thesis
    proof (cases "stage (threads s ! t)")
      case (Released d')
      with c Consume assms t np show ?thesis using that(11)[of f c d']
        by (auto simp: step_def)
    next
      case Idle
      with c Consume assms t np show ?thesis using that(10)[of f c st c']
        by (auto simp: step_def split: if_splits)
    next
      case Reserved
      with c Consume assms t np show ?thesis using that(10)[of f c st c']
        by (auto simp: step_def split: if_splits)
    next
      case Inside
      with c Consume assms t np show ?thesis using that(10)[of f c st c']
        by (auto simp: step_def split: if_splits option.splits)
    next
      case (Slot_done d')
      with c Consume assms t np show ?thesis using that(10)[of f c st c']
        by (auto simp: step_def split: if_splits)
    qed
  next
    case (Sem_create sm n f)
    with assms t np show ?thesis using that(12) by (simp add: step_def)
  next
    case (Thread_fork ep n f)
    with assms t np show ?thesis using that(13)[of ep n f] that(14)[of ep n f]
      by (cases "fork_result e ep n = 0") (simp_all add: step_def Let_def)
  qed
qed

definition initial :: "thread \<Rightarrow> prog" where
  "initial th = (case origin th of None \<Rightarrow> run_producerconsumer | Some (ep, n) \<Rightarrow> entry_code ep n)"

definition conforms :: "env \<Rightarrow> thread \<Rightarrow> bool" where
  "conforms e th \<longleftrightarrow> (\<forall>xs. exec (initial th) e (got (past th) @ xs) = past th @ exec (code th) e xs)"

lemma got_append [simp]: "got (evs @ evs') = got evs @ got evs'"
  by (induction evs rule: got.induct) simp_all

lemma produced_append [simp]: "produced (evs @ evs') = produced evs @ produced evs'"
  by (induction evs rule: produced.induct) simp_all

lemma all_threads_update:
  "\<forall>th \<in> set ths. Q th \<Longrightarrow> Q y \<Longrightarrow> \<forall>th \<in> set (ths[t := y]). Q th"
  using set_update_subset_insert[of ths t y] by auto

lemma conforms_returned:
  assumes "conforms e th" and "\<And>xs. exec (code th) e (got [ev] @ xs) = ev # exec p e xs"
  shows "conforms e (th\<lparr>code := p, stage := st, past := past th @ [ev]\<rparr>)"
  unfolding conforms_def
proof
  fix xs
  have "exec (initial th) e (got (past th) @ (got [ev] @ xs)) = past th @ exec (code th) e (got [ev] @ xs)"
    using assms(1) unfolding conforms_def by blast
  then show "exec (initial (th\<lparr>code := p, stage := st, past := past th @ [ev]\<rparr>)) e
          (got (past (th\<lparr>code := p, stage := st, past := past th @ [ev]\<rparr>)) @ xs) =
         past (th\<lparr>code := p, stage := st, past := past th @ [ev]\<rparr>) @
         exec (code (th\<lparr>code := p, stage := st, past := past th @ [ev]\<rparr>)) e xs"
    using assms(2)[of xs] by (simp add: initial_def)
qed

lemma conforms_staged [simp]: "conforms e (th\<lparr>stage := st\<rparr>) = conforms e th"
  by (simp add: conforms_def initial_def)

lemma conforms_new_thread [simp]: "conforms e (new_thread ep n)"
  by (simp add: conforms_def initial_def new_thread_def)

definition all_conform :: "env \<Rightarrow> system \<Rightarrow> bool" where
  "all_conform e s \<longleftrightarrow> (\<forall>th \<in> set (threads s). conforms e th)"

lemma all_conform_fields [simp]:
  "all_conform e (s\<lparr>sems := x\<rparr>) = all_conform e s"
  "all_conform e (s\<lparr>store := y\<rparr>) = all_conform e s"
  "all_conform e (s\<lparr>panicked := z\<rparr>) = all_conform e s"
  "all_conform e (s\<lparr>misused := w\<rparr>) = all_conform e s"
  by (simp_all add: all_conform_def)

lemma all_conform_returned:
  assumes "all_conform e s" and "t < length (threads s)"
    and "\<And>xs. exec (code (threads s ! t)) e (got [ev] @ xs) = ev # exec p e xs"
  shows "all_conform e (returned t ev p s)"
  unfolding all_conform_def threads_returned
proof (rule all_threads_update)
  show "\<forall>th \<in> set (threads s). conforms e th" using assms(1) by (simp add: all_conform_def)
  have "conforms e (threads s ! t)" using assms(1,2) by (simp add: all_conform_def)
  then show "conforms e ((threads s ! t)\<lparr>code := p, stage := Idle, past := past (threads s ! t) @ [ev]\<rparr>)"
    using assms(3) by (rule conforms_returned)
qed

lemma all_conform_staged:
  assumes "all_conform e s" and "t < length (threads s)"
  shows "all_conform e (staged t st s)"
  unfolding all_conform_def threads_staged
proof (rule all_threads_update)
  show "\<forall>th \<in> set (threads s). conforms e th" using assms(1) by (simp add: all_conform_def)
  show "conforms e ((threads s ! t)\<lparr>stage := st\<rparr>)" using assms by (simp add: all_conform_def)
qed

lemma all_conform_spawn:
  "all_conform e s \<Longrightarrow> all_conform e (s\<lparr>threads := threads s @ [new_thread ep n]\<rparr>)"
  by (simp add: all_conform_def)

lemma all_conform_step:
  assumes "step e C t s = Some s'" and "all_conform e s"
  shows "all_conform e s'"
  using assms(1)
proof (cases rule: step_cases)
  case (Fork_ok ep n f)
  have "all_conform e (returned t (Forked ep n 0) (f 0) s)"
    using assms(2) Fork_ok by (simp add: all_conform_returned)
  then show ?thesis unfolding Fork_ok(5) by (rule all_conform_spawn)
qed (use assms(2) in \<open>simp_all add: all_conform_returned all_conform_staged\<close>)

fun splits_ok :: "(event list \<Rightarrow> event \<Rightarrow> bool) \<Rightarrow> event list \<Rightarrow> event list \<Rightarrow> bool" where
  "splits_ok Q pre [] = True"
| "splits_ok Q pre (ev # evs) = (Q pre ev \<and> splits_ok Q (pre @ [ev]) evs)"

fun is_created :: "sem \<Rightarrow> event \<Rightarrow> bool" where
  "is_created sm (Created sm' n ok) = (sm = sm')"
| "is_created sm ev = False"

fun forked_ok :: "entrypoint \<Rightarrow> event \<Rightarrow> bool" where
  "forked_ok ep (Forked ep' n r) = (ep = ep' \<and> r = 0)"
| "forked_ok ep ev = False"

fun is_forked :: "event \<Rightarrow> bool" where
  "is_forked (Forked ep n r) = True"
| "is_forked ev = False"

definition NUM_THREADS :: "entrypoint \<Rightarrow> nat" where
  "NUM_THREADS ep = (case ep of Producer_entry \<Rightarrow> NUM_PRODUCERS | Consumer_entry \<Rightarrow> NUM_CONSUMERS)"

text \<open>The number of threads that signal a semaphore.\<close>

fun sem_threads :: "sem \<Rightarrow> nat" where
  "sem_threads producer_finished = NUM_PRODUCERS"
| "sem_threads consumer_finished = NUM_CONSUMERS"

fun main_event :: "event list \<Rightarrow> event \<Rightarrow> bool" where
  "main_event pre (Created sm n ok) =
     (n = 0 \<and> \<not> list_ex (is_created sm) pre \<and> Called Shutdown \<notin> set pre)"
| "main_event pre (Forked ep n r) =
     (n = of_nat (length (filter (forked_ok ep) pre)) \<and>
      length (filter (forked_ok ep) pre) < NUM_THREADS ep \<and>
      Created producer_finished 0 True \<in> set pre \<and>
      Created consumer_finished 0 True \<in> set pre \<and>
      Called Startup \<in> set pre \<and> Called Shutdown \<notin> set pre \<and> produced pre = [])"
| "main_event pre (Got d) = False"
| "main_event pre (Called (V sm)) = False"
| "main_event pre (Called (P sm)) =
     (Created sm 0 True \<in> set pre \<and> Called (Sem_destroy sm) \<notin> set pre \<and>
      count_list pre (Called (P sm)) < sem_threads sm \<and>
      length (filter (forked_ok Producer_entry) pre) = NUM_PRODUCERS \<and>
      length (filter (forked_ok Consumer_entry) pre) = NUM_CONSUMERS \<and>
      produced pre = (case sm of producer_finished \<Rightarrow> []
                      | consumer_finished \<Rightarrow> replicate NUM_CONSUMERS \<lparr>item1 = 0, item2 = 0\<rparr>) \<and>
      Called Startup \<in> set pre \<and> Called Shutdown \<notin> set pre)"
| "main_event pre (Called (Produce d)) =
     (d = \<lparr>item1 = 0, item2 = 0\<rparr> \<and>
      count_list pre (Called (P producer_finished)) = NUM_PRODUCERS \<and>
      Created producer_finished 0 True \<in> set pre \<and>
      Called (Sem_destroy producer_finished) \<notin> set pre \<and>
      Created consumer_finished 0 True \<in> set pre \<and>
      Called (Sem_destroy consumer_finished) \<notin> set pre \<and>
      length (filter (forked_ok Producer_entry) pre) = NUM_PRODUCERS \<and>
      length (filter (forked_ok Consumer_entry) pre) = NUM_CONSUMERS \<and>
      length (produced pre) < NUM_CONSUMERS \<and>
      produced pre = replicate (length (produced pre)) \<lparr>item1 = 0, item2 = 0\<rparr> \<and>
      Called Startup \<in> set pre \<and> Called Shutdown \<notin> set pre)"
| "main_event pre (Called Startup) =
     (\<not> list_ex is_forked pre \<and> Called Startup \<notin> set pre \<and> Called Shutdown \<notin> set pre \<and>
      produced pre = [])"
| "main_event pre (Called Shutdown) =
     (count_list pre (Called (P consumer_finished)) = NUM_CONSUMERS \<and>
      Created consumer_finished 0 True \<in> set pre \<and>
      Called (Sem_destroy consumer_finished) \<notin> set pre \<and>
      count_list pre (Called (P producer_finished)) = NUM_PRODUCERS \<and>
      Created producer_finished 0 True \<in> set pre \<and>
      Called (Sem_destroy producer_finished) \<notin> set pre \<and>
      length (filter (forked_ok Producer_entry) pre) = NUM_PRODUCERS \<and>
      length (filter (forked_ok Consumer_entry) pre) = NUM_CONSUMERS \<and>
      produced pre = replicate NUM_CONSUMERS \<lparr>item1 = 0, item2 = 0\<rparr> \<and>
      Called Startup \<in> set pre \<and> Called Shutdown \<notin> set pre)"
| "main_event pre (Called (Sem_destroy sm)) = (Called Shutdown \<in> set pre)"
| "main_event pre (Called (Kprintf m)) = (Called Shutdown \<notin> set pre)"
| "main_event pre Returned = (Called Shutdown \<in> set pre)"
| "main_event pre (Panicked m) = (produced pre = [])"
| "main_event pre Blocked = False"

fun producer_event :: "event list \<Rightarrow> event \<Rightarrow> bool" where
  "producer_event pre (Called (Kprintf m)) = (Called (V producer_finished) \<notin> set pre)"
| "producer_event pre (Called (Produce d)) =
     (Called (V producer_finished) \<notin> set pre \<and> length (produced pre) < unat ITEMS_TO_PRODUCE - 1)"
| "producer_event pre (Called (V sm)) =
     (sm = producer_finished \<and> Called (V producer_finished) \<notin> set pre)"
| "producer_event pre Returned = (Called (V producer_finished) \<in> set pre)"
| "producer_event pre ev = False"

fun consumer_event :: "event list \<Rightarrow> event \<Rightarrow> bool" where
  "consumer_event pre (Called (Kprintf m)) = (Called (V consumer_finished) \<notin> set pre)"
| "consumer_event pre (Got d) =
     (list_all consumer_continues (got pre) \<and> length (got pre) < unat CONSUMER_BORED_COUNT \<and>
      Called (V consumer_finished) \<notin> set pre)"
| "consumer_event pre (Called (V sm)) =
     (sm = consumer_finished \<and> Called (V consumer_finished) \<notin> set pre \<and> got pre \<noteq> [] \<and>
      list_all consumer_continues (butlast (got pre)) \<and>
      (\<not> consumer_continues (last (got pre)) \<or> length (got pre) = unat CONSUMER_BORED_COUNT))"
| "consumer_event pre Returned = (Called (V consumer_finished) \<in> set pre)"
| "consumer_event pre Blocked = (Called (V consumer_finished) \<notin> set pre)"
| "consumer_event pre ev = False"

lemma splits_okD:
  "splits_ok Q pre0 L \<Longrightarrow> L = pre @ ev # rest \<Longrightarrow> Q (pre0 @ pre) ev"
proof (induction L arbitrary: pre0 pre)
  case Nil
  then show ?case by simp
next
  case (Cons a L)
  show ?case
  proof (cases pre)
    case Nil
    with Cons.prems show ?thesis by simp
  next
    case (Cons b pre')
    with Cons.prems have "splits_ok Q (pre0 @ [a]) L" "L = pre' @ ev # rest" "b = a" by simp_all
    from Cons.IH[OF this(1,2)] show ?thesis using Cons \<open>b = a\<close> by simp
  qed
qed

lemma splits_ok_append:
  "splits_ok Q pre (A @ B) = (splits_ok Q pre A \<and> splits_ok Q (pre @ A) B)"
  by (induction A arbitrary: pre) simp_all

lemma exec_start_consumer_threads_from:
  "exec (start_consumer_threads_from i k) e xs =
     (if i < NUM_CONSUMERS then
        Forked Consumer_entry (of_nat i) (fork_result e Consumer_entry (of_nat i)) #
        (if fork_result e Consumer_entry (of_nat i) \<noteq> 0
         then [Panicked (Couldnt_fork_consumer (fork_result e Consumer_entry (of_nat i)))]
         else exec (start_consumer_threads_from (i + 1) k) e xs)
      else exec k e xs)"
  by (subst start_consumer_threads_from.simps) simp

lemma exec_start_producer_threads_from:
  "exec (start_producer_threads_from i k) e xs =
     (if i < NUM_PRODUCERS then
        Forked Producer_entry (of_nat i) (fork_result e Producer_entry (of_nat i)) #
        (if fork_result e Producer_entry (of_nat i) \<noteq> 0
         then [Panicked (Couldnt_fork_producer (fork_result e Producer_entry (of_nat i)))]
         else exec (start_producer_threads_from (i + 1) k) e xs)
      else exec k e xs)"
  by (subst start_producer_threads_from.simps) simp

lemma replicate_2: "replicate 2 x = [x, x]"
  by (simp add: numeral_eq_Suc)

lemma replicate_5: "replicate 5 x = [x, x, x, x, x]"
  by (simp add: numeral_eq_Suc)

lemma main_events: "splits_ok main_event [] (exec run_producerconsumer e xs)"
  by (simp add: run_producerconsumer_def start_consumer_threads_def start_producer_threads_def
     exec_start_consumer_threads_from exec_start_producer_threads_from NUM_CONSUMERS_def NUM_PRODUCERS_def
     wait_for_producer_threads_def stop_consumer_threads_def exec_repeat_from NUM_THREADS_def
     replicate_2 replicate_5)

lemma producer_events: "splits_ok producer_event [] (exec (producer_thread n) e xs)"
  by (simp add: producer_thread_def ITEMS_TO_PRODUCE_def producer_loop.simps)

lemma unat_bored: "unat CONSUMER_BORED_COUNT = 10000"
  by (simp add: CONSUMER_BORED_COUNT_def)

lemma bored_count_step:
  assumes "unat bc < unat CONSUMER_BORED_COUNT"
  shows "unat (bc + 1) = Suc (unat bc)"
    and "bc + 1 = CONSUMER_BORED_COUNT \<longleftrightarrow> Suc (unat bc) = unat CONSUMER_BORED_COUNT"
proof -
  have "unat bc + unat (1 :: cint) < 2 ^ LENGTH(32)"
    using assms by (simp add: unat_bored)
  then have "unat (bc + 1) = unat bc + unat (1 :: cint)"
    by (simp only: unat_add_lem)
  then show 1: "unat (bc + 1) = Suc (unat bc)" by simp
  show "bc + 1 = CONSUMER_BORED_COUNT \<longleftrightarrow> Suc (unat bc) = unat CONSUMER_BORED_COUNT"
    using 1 by (simp add: word_unat_eq_iff)
qed

lemma consumer_loop_events:
  assumes "got pre0 = gs @ [d]" and "list_all consumer_continues gs" and "length gs = unat bc"
    and "unat bc < unat CONSUMER_BORED_COUNT" and "Called (V consumer_finished) \<notin> set pre0"
  shows "splits_ok consumer_event pre0 (exec (consumer_loop bc d consumer_finish) e xs)"
  using assms
proof (induction xs arbitrary: pre0 gs d bc)
  case Nil
  then show ?case
    using bored_count_step[of bc]
    by (auto simp add: exec_consumer_loop exec_consumer_finish)
next
  case (Cons x xs)
  show ?case
  proof (cases "consumer_continues d \<and> bc + 1 \<noteq> CONSUMER_BORED_COUNT")
    case True
    define err where "err = (if item1 d + 1 \<noteq> item2 d
      then [Called (Kprintf (Unexpected_data (item1 d) (item2 d)))] else [])"
    have unfold: "exec (consumer_loop bc d consumer_finish) e (x # xs) =
        (err @ [Got x]) @ exec (consumer_loop (bc + 1) x consumer_finish) e xs"
      using True by (simp add: exec_consumer_loop err_def)
    have goterr: "got err = []" "Called (V consumer_finished) \<notin> set err"
      by (simp_all add: err_def)
    have 1: "splits_ok consumer_event pre0 (err @ [Got x])"
      using Cons.prems True bored_count_step[of bc] goterr
      by (auto simp add: splits_ok_append err_def)
    have 2: "splits_ok consumer_event (pre0 @ err @ [Got x])
        (exec (consumer_loop (bc + 1) x consumer_finish) e xs)"
    proof (rule Cons.IH[where gs = "gs @ [d]"])
      show "got (pre0 @ err @ [Got x]) = (gs @ [d]) @ [x]" using Cons.prems(1) goterr by simp
      show "list_all consumer_continues (gs @ [d])" using Cons.prems(2) True by simp
      show "length (gs @ [d]) = unat (bc + 1)" using Cons.prems(3,4) bored_count_step[of bc] by simp
      show "unat (bc + 1) < unat CONSUMER_BORED_COUNT"
        using Cons.prems(4) True bored_count_step[of bc] by auto
      show "Called (V consumer_finished) \<notin> set (pre0 @ err @ [Got x])"
        using Cons.prems(5) goterr by simp
    qed
    show ?thesis unfolding unfold using 1 2 by (simp add: splits_ok_append)
  next
    case False
    then show ?thesis
      using Cons.prems bored_count_step[of bc]
      by (auto simp add: exec_consumer_loop exec_consumer_finish)
  qed
qed

lemma consumer_events: "splits_ok consumer_event [] (exec (consumer_thread n) e xs)"
proof (cases xs)
  case Nil
  then show ?thesis by (simp add: consumer_thread_def)
next
  case (Cons d ds)
  have "splits_ok consumer_event ([] @ [Called (Kprintf Consumer_started), Got d])
      (exec (consumer_loop 0 d consumer_finish) e ds)"
    by (rule consumer_loop_events[where gs = "[]"]) (simp_all add: unat_bored)
  then show ?thesis using Cons by (simp add: consumer_thread_def unat_bored)
qed

definition thread_event :: "thread \<Rightarrow> event list \<Rightarrow> event \<Rightarrow> bool" where
  "thread_event th =
     (case origin th of
        None \<Rightarrow> main_event
      | Some (Producer_entry, n) \<Rightarrow> producer_event
      | Some (Consumer_entry, n) \<Rightarrow> consumer_event)"

lemma initial_events: "splits_ok (thread_event th) [] (exec (initial th) e xs)"
  by (auto simp: thread_event_def initial_def entry_code_def main_events producer_events
      consumer_events split: option.splits entrypoint.splits)

lemma conforms_past:
  assumes "conforms e th" and "past th = pre @ ev # rest"
  shows "thread_event th pre ev"
proof -
  have "exec (initial th) e (got (past th) @ []) = past th @ exec (code th) e []"
    using assms(1) unfolding conforms_def by (rule spec)
  then have "exec (initial th) e (got (past th) @ []) = pre @ ev # (rest @ exec (code th) e [])"
    using assms(2) by simp
  from splits_okD[OF initial_events this] show ?thesis by simp
qed

lemma conforms_next:
  assumes "conforms e th" and "exec (code th) e xs = ev # rest"
  shows "thread_event th (past th) ev"
proof -
  have "exec (initial th) e (got (past th) @ xs) = past th @ exec (code th) e xs"
    using assms(1) unfolding conforms_def by (rule spec)
  then have "exec (initial th) e (got (past th) @ xs) = past th @ ev # rest"
    using assms(2) by simp
  from splits_okD[OF initial_events this] show ?thesis by simp
qed

definition pasts :: "system \<Rightarrow> event list list" where
  "pasts s = map past (threads s)"

definition origins :: "system \<Rightarrow> (entrypoint \<times> cint) option list" where
  "origins s = map origin (threads s)"

fun spawned :: "event \<Rightarrow> (entrypoint \<times> cint) list" where
  "spawned (Forked ep n r) = (if r = 0 then [(ep, n)] else [])"
| "spawned ev = []"

fun sem_effect :: "event \<Rightarrow> (sem \<Rightarrow> nat option) \<Rightarrow> sem \<Rightarrow> nat option" where
  "sem_effect (Called (V sm)) \<sigma> = \<sigma>(sm := map_option Suc (\<sigma> sm))"
| "sem_effect (Called (P sm)) \<sigma> = \<sigma>(sm := map_option (\<lambda>n. n - 1) (\<sigma> sm))"
| "sem_effect (Created sm n ok) \<sigma> = (if ok then \<sigma>(sm \<mapsto> n) else \<sigma>)"
| "sem_effect (Called (Sem_destroy sm)) \<sigma> = \<sigma>(sm := None)"
| "sem_effect ev \<sigma> = \<sigma>"

fun sem_enabled :: "event \<Rightarrow> (sem \<Rightarrow> nat option) \<Rightarrow> bool" where
  "sem_enabled (Called (V sm)) \<sigma> = (\<sigma> sm \<noteq> None)"
| "sem_enabled (Called (P sm)) \<sigma> = (\<exists>n. \<sigma> sm = Some (Suc n))"
| "sem_enabled ev \<sigma> = True"

lemma map_update_same [simp]: "(map f xs)[t := f (xs ! t)] = map f xs"
  by (cases "t < length xs") (simp_all add: list_eq_iff_nth_eq nth_list_update)

lemma pasts_simps [simp]:
  "pasts (s\<lparr>sems := x\<rparr>) = pasts s"
  "pasts (s\<lparr>store := y\<rparr>) = pasts s"
  "pasts (s\<lparr>panicked := z\<rparr>) = pasts s"
  "pasts (s\<lparr>misused := w\<rparr>) = pasts s"
  "pasts (staged t st s) = pasts s"
  "pasts (returned t ev p s) = (pasts s)[t := past (threads s ! t) @ [ev]]"
  "pasts (s\<lparr>threads := ths\<rparr>) = map past ths"
  by (simp_all add: pasts_def map_update)

lemma origins_simps [simp]:
  "origins (s\<lparr>sems := x\<rparr>) = origins s"
  "origins (s\<lparr>store := y\<rparr>) = origins s"
  "origins (s\<lparr>panicked := z\<rparr>) = origins s"
  "origins (s\<lparr>misused := w\<rparr>) = origins s"
  "origins (staged t st s) = origins s"
  "origins (returned t ev p s) = origins s"
  "origins (s\<lparr>threads := ths\<rparr>) = map origin ths"
  by (simp_all add: origins_def map_update)

lemma step_events [consumes 2, case_names Silent Event]:
  assumes "step e C t s = Some s'" and "all_conform e s"
  obtains
    (Silent) "pasts s' = pasts s" "origins s' = origins s" "sems s' = sems s"
  | (Event) ev where "t < length (threads s)"
      "thread_event (threads s ! t) (past (threads s ! t)) ev"
      "pasts s' = (pasts s)[t := past (threads s ! t) @ [ev]] @ map (\<lambda>x. []) (spawned ev)"
      "origins s' = origins s @ map Some (spawned ev)"
      "sems s' = sem_effect ev (sems s)" "sem_enabled ev (sems s)"
proof -
  have next_event: "thread_event (threads s ! t) (past (threads s ! t)) ev"
    if "t < length (threads s)" "exec (code (threads s ! t)) e xs = ev # rest" for ev xs rest
  proof -
    have "conforms e (threads s ! t)" using assms(2) that(1) by (simp add: all_conform_def)
    then show ?thesis using that(2) by (rule conforms_next)
  qed
  from assms(1) show ?thesis
  proof (cases rule: step_cases)
    case (Panic m)
    then show ?thesis using that(1) by simp
  next
    case (Kprintf m p)
    then show ?thesis
      using that(2)[of "Called (Kprintf m)"] next_event[of "[]" "Called (Kprintf m)"] by simp
  next
    case (V sm p n)
    then show ?thesis
      using that(2)[of "Called (V sm)"] next_event[of "[]" "Called (V sm)"] by auto
  next
    case (P sm p n)
    then show ?thesis
      using that(2)[of "Called (P sm)"] next_event[of "[]" "Called (P sm)"] by auto
  next
    case (Startup p)
    then show ?thesis
      using that(2)[of "Called Startup"] next_event[of "[]" "Called Startup"] by simp
  next
    case (Shutdown p)
    then show ?thesis
      using that(2)[of "Called Shutdown"] next_event[of "[]" "Called Shutdown"] by simp
  next
    case (Destroy sm p)
    then show ?thesis
      using that(2)[of "Called (Sem_destroy sm)"] next_event[of "[]" "Called (Sem_destroy sm)"]
      by auto
  next
    case (Produce_stage d p c st c')
    then show ?thesis using that(1) by simp
  next
    case (Produce_return d p c d')
    then show ?thesis
      using that(2)[of "Called (Produce d)"] next_event[of "[]" "Called (Produce d)"] by simp
  next
    case (Consume_stage f c st c')
    then show ?thesis using that(1) by simp
  next
    case (Consume_return f c d)
    then show ?thesis
      using that(2)[of "Got d"] next_event[of "[d]" "Got d"] by simp
  next
    case (Create sm n f)
    then show ?thesis
      using that(2)[of "Created sm n (sem_ok e sm)"]
        next_event[of "[]" "Created sm n (sem_ok e sm)"] by auto
  next
    case (Fork_ok ep n f)
    then show ?thesis
      using that(2)[of "Forked ep n 0"] next_event[of "[]" "Forked ep n 0"]
      by (simp add: map_update new_thread_def) (simp add: pasts_def origins_def)
  next
    case (Fork_fail ep n f)
    then show ?thesis
      using that(2)[of "Forked ep n (fork_result e ep n)"]
        next_event[of "[]" "Forked ep n (fork_result e ep n)"] by simp
  next
    case (Startup_fail p)
    then show ?thesis using that(1) by simp
  next
    case (Shutdown_misuse p)
    then show ?thesis
      using that(2)[of "Called Shutdown"] next_event[of "[]" "Called Shutdown"] by simp
  qed
qed

definition total :: "event \<Rightarrow> system \<Rightarrow> nat" where
  "total x s = sum_list (map (\<lambda>p. count_list p x) (pasts s))"

definition main_past :: "system \<Rightarrow> event list" where
  "main_past s = hd (pasts s)"

fun runs :: "entrypoint \<Rightarrow> (entrypoint \<times> cint) option \<Rightarrow> bool" where
  "runs ep (Some (ep', n)) = (ep = ep')"
| "runs ep None = False"

definition ids_ok :: "system \<Rightarrow> bool" where
  "ids_ok s \<longleftrightarrow> origins s \<noteq> [] \<and> hd (origins s) = None \<and> None \<notin> set (tl (origins s))"

definition sem_inv :: "sem \<Rightarrow> system \<Rightarrow> bool" where
  "sem_inv sm s \<longleftrightarrow>
     (if Created sm 0 True \<in> set (main_past s) then
        Called (Sem_destroy sm) \<in> set (main_past s) \<or>
        (\<exists>c. sems s sm = Some c \<and> c + total (Called (P sm)) s = total (Called (V sm)) s)
      else sems s sm = None \<and> total (Called (P sm)) s = 0 \<and> total (Called (V sm)) s = 0)"

definition count_inv :: "entrypoint \<Rightarrow> system \<Rightarrow> bool" where
  "count_inv ep s \<longleftrightarrow>
     length (filter (runs ep) (origins s)) = length (filter (forked_ok ep) (main_past s))"

definition driver_inv :: "env \<Rightarrow> system \<Rightarrow> bool" where
  "driver_inv e s \<longleftrightarrow> all_conform e s \<and> ids_ok s \<and> (\<forall>sm. sem_inv sm s) \<and> (\<forall>ep. count_inv ep s)"

lemma length_pasts_origins: "length (pasts s) = length (threads s)" "length (origins s) = length (threads s)"
  by (simp_all add: pasts_def origins_def)

lemma nth_pasts_origins:
  "t < length (threads s) \<Longrightarrow> pasts s ! t = past (threads s ! t)"
  "t < length (threads s) \<Longrightarrow> origins s ! t = origin (threads s ! t)"
  by (simp_all add: pasts_def origins_def)

lemma ids_ok_main:
  assumes "ids_ok s" and "t < length (threads s)"
  shows "origin (threads s ! t) = None \<longleftrightarrow> t = 0"
proof -
  obtain o1 os where os: "origins s = o1 # os" "o1 = None" "None \<notin> set os"
    using assms(1) by (cases "origins s") (auto simp: ids_ok_def)
  have eq: "origin (threads s ! t) = origins s ! t" using assms(2) by (simp add: nth_pasts_origins)
  show ?thesis
  proof (cases t)
    case 0
    then show ?thesis using eq os by simp
  next
    case (Suc k)
    then have "k < length os" using assms(2) os(1) length_pasts_origins(2)[of s] by simp
    then have "os ! k \<in> set os" by simp
    then have "os ! k \<noteq> None" using os(3) by metis
    then show ?thesis using eq os Suc by simp
  qed
qed

lemma hd_update_append:
  "ps \<noteq> [] \<Longrightarrow> hd (ps[t := y] @ zs) = (if t = 0 then y else hd ps)"
  by (cases ps; cases t) simp_all

lemma sum_count_update:
  "t < length ps \<Longrightarrow>
   sum_list (map (\<lambda>p. count_list p x) (ps[t := ps ! t @ [ev]] @ map (\<lambda>z. []) zs)) =
     sum_list (map (\<lambda>p. count_list p x) ps) + (if ev = x then 1 else 0)"
proof (induction ps arbitrary: t)
  case Nil
  then show ?case by simp
next
  case (Cons p ps)
  then show ?case by (cases t) (auto simp: comp_def)
qed

lemma created_list_ex: "Created sm n ok \<in> set pre \<Longrightarrow> list_ex (is_created sm) pre"
  by (auto simp: list_ex_iff intro!: bexI[where x = "Created sm n ok"])

lemma event_effects:
  assumes "ids_ok s" and "t < length (threads s)"
    and "pasts s' = (pasts s)[t := past (threads s ! t) @ [ev]] @ map (\<lambda>x. []) (spawned ev)"
  shows "main_past s' = (if t = 0 then main_past s @ [ev] else main_past s)"
    and "total x s' = total x s + (if ev = x then 1 else 0)"
proof -
  have ne: "pasts s \<noteq> []" using assms(2) length_pasts_origins(1)[of s] by auto
  have pt: "past (threads s ! t) = pasts s ! t" using assms(2) by (simp add: nth_pasts_origins)
  show "main_past s' = (if t = 0 then main_past s @ [ev] else main_past s)"
    unfolding main_past_def assms(3) pt using ne
    by (cases "pasts s"; cases t) simp_all
  show "total x s' = total x s + (if ev = x then 1 else 0)"
    unfolding total_def assms(3) pt using assms(2) length_pasts_origins(1)[of s]
    by (simp only: sum_count_update)
qed

lemma thread_event_main:
  "origin th = None \<Longrightarrow> thread_event th = main_event"
  by (simp add: thread_event_def)

lemma thread_event_other:
  "origin th \<noteq> None \<Longrightarrow> thread_event th = producer_event \<or> thread_event th = consumer_event"
  by (auto simp: thread_event_def split: entrypoint.splits)

lemma sem_inv_step:
  assumes "step e C t s = Some s'" and "driver_inv e s"
  shows "sem_inv sm s'"
proof -
  from assms(2) have conf: "all_conform e s" and ids: "ids_ok s" and inv: "sem_inv sm s"
    by (simp_all add: driver_inv_def)
  from assms(1) conf show ?thesis
  proof (cases rule: step_events)
    case Silent
    show ?thesis using inv unfolding sem_inv_def main_past_def total_def Silent .
  next
    case (Event ev)
    note eff = event_effects[OF ids Event(1,3)]
    have main: "origin (threads s ! t) = None \<longleftrightarrow> t = 0" using ids Event(1) by (rule ids_ok_main)
    show ?thesis
    proof (cases "t = 0")
      case True
      then have me: "main_event (main_past s) ev"
        using Event(2) main thread_event_main[of "threads s ! t"] Event(1)
        by (simp add: main_past_def pasts_def hd_conv_nth)
      show ?thesis
      proof (cases ev)
        case (Called a)
        show ?thesis
        proof (cases a)
          case (V sm')
          with me Called show ?thesis by simp
        next
          case (P sm')
          with me Called inv eff True Event(5,6) show ?thesis
            by (auto simp: sem_inv_def split: if_splits)
        next
          case (Sem_destroy sm')
          with me Called inv eff True Event(5,6) show ?thesis
            by (auto simp: sem_inv_def split: if_splits)
        next
          case (Kprintf m)
          with me Called inv eff True Event(5,6) show ?thesis
            by (auto simp: sem_inv_def split: if_splits)
        next
          case (Produce d)
          with me Called inv eff True Event(5,6) show ?thesis
            by (auto simp: sem_inv_def split: if_splits)
        next
          case Startup
          with me Called inv eff True Event(5,6) show ?thesis
            by (auto simp: sem_inv_def split: if_splits)
        next
          case Shutdown
          with me Called inv eff True Event(5,6) show ?thesis
            by (auto simp: sem_inv_def split: if_splits)
        qed
      next
        case (Created sm' n ok)
        with me have n: "n = 0" and fresh: "\<not> list_ex (is_created sm') (main_past s)" by simp_all
        from fresh have "Created sm' 0 True \<notin> set (main_past s)"
          using created_list_ex by blast
        with Created n inv eff True Event(5,6) show ?thesis
          by (auto simp: sem_inv_def split: if_splits)
      qed (use me inv eff True Event(5,6) in \<open>auto simp: sem_inv_def split: if_splits\<close>)
    next
      case False
      then have "origin (threads s ! t) \<noteq> None" using main by simp
      then have oe: "producer_event (past (threads s ! t)) ev \<or> consumer_event (past (threads s ! t)) ev"
        using Event(2) thread_event_other[of "threads s ! t"] by auto
      show ?thesis
      proof (cases ev)
        case (Called a)
        show ?thesis
        proof (cases a)
          case (V sm')
          with Called inv eff False Event(5,6) show ?thesis
            by (auto simp: sem_inv_def split: if_splits)
        qed (use oe Called inv eff False Event(5,6) in \<open>auto simp: sem_inv_def split: if_splits\<close>)
      qed (use oe inv eff False Event(5,6) in \<open>auto simp: sem_inv_def split: if_splits\<close>)
    qed
  qed
qed

lemma count_inv_step:
  assumes "step e C t s = Some s'" and "driver_inv e s"
  shows "count_inv ep s'"
proof -
  from assms(2) have conf: "all_conform e s" and ids: "ids_ok s" and inv: "count_inv ep s"
    by (simp_all add: driver_inv_def)
  from assms(1) conf show ?thesis
  proof (cases rule: step_events)
    case Silent
    show ?thesis using inv unfolding count_inv_def main_past_def Silent .
  next
    case (Event ev)
    note eff = event_effects[OF ids Event(1,3)]
    have main: "origin (threads s ! t) = None \<longleftrightarrow> t = 0" using ids Event(1) by (rule ids_ok_main)
    show ?thesis
    proof (cases "t = 0")
      case True
      then show ?thesis using inv eff(1) Event(4)
        by (cases ev) (auto simp: count_inv_def)
    next
      case False
      then have "origin (threads s ! t) \<noteq> None" using main by simp
      then have oe: "producer_event (past (threads s ! t)) ev \<or> consumer_event (past (threads s ! t)) ev"
        using Event(2) thread_event_other[of "threads s ! t"] by auto
      then show ?thesis using inv eff(1) Event(4) False
        by (cases ev) (auto simp: count_inv_def)
    qed
  qed
qed

lemma ids_ok_step:
  assumes "step e C t s = Some s'" and "driver_inv e s"
  shows "ids_ok s'"
proof -
  from assms(2) have conf: "all_conform e s" and ids: "ids_ok s"
    by (simp_all add: driver_inv_def)
  from assms(1) conf show ?thesis
  proof (cases rule: step_events)
    case Silent
    show ?thesis using ids unfolding ids_ok_def Silent .
  next
    case (Event ev)
    then show ?thesis using ids by (cases "origins s"; cases ev) (auto simp: ids_ok_def)
  qed
qed

lemma driver_inv_step:
  "step e C t s = Some s' \<Longrightarrow> driver_inv e s \<Longrightarrow> driver_inv e s'"
  using all_conform_step[of e C t s s'] ids_ok_step[of e C t s s']
    sem_inv_step[of e C t s s'] count_inv_step[of e C t s s']
  by (simp add: driver_inv_def)

lemma driver_inv_boot: "driver_inv e boot"
  by (simp add: driver_inv_def all_conform_def ids_ok_def sem_inv_def count_inv_def boot_def
      conforms_def initial_def origins_def main_past_def pasts_def total_def)

lemma driver_inv_run: "driver_inv e s \<Longrightarrow> driver_inv e (run e C sched s)"
  by (induction sched arbitrary: s) (auto split: option.splits intro: driver_inv_step)

lemma count_le_one:
  "(\<And>pre rest. L = pre @ x # rest \<Longrightarrow> x \<notin> set pre) \<Longrightarrow> count_list L x \<le> 1"
proof (induction L rule: rev_induct)
  case Nil
  then show ?case by simp
next
  case (snoc a L)
  have IH: "count_list L x \<le> 1"
  proof (rule snoc.IH)
    fix pre rest assume "L = pre @ x # rest"
    then have "L @ [a] = pre @ x # (rest @ [a])" by simp
    then show "x \<notin> set pre" by (rule snoc.prems)
  qed
  show ?case
  proof (cases "a = x")
    case True
    have "x \<notin> set L" using snoc.prems[of L "[]"] True by simp
    then show ?thesis using True by (simp add: count_list_0_iff)
  next
    case False
    then show ?thesis using IH by simp
  qed
qed

lemma sum_le_filter:
  "\<forall>x \<in> set xs. f x \<le> (if R x then 1 else (0::nat)) \<Longrightarrow>
     sum_list (map f xs) \<le> length (filter R xs)"
  by (induction xs) (auto split: if_splits)

lemma sum_eq_filter:
  "\<forall>x \<in> set xs. f x \<le> (if R x then 1 else (0::nat)) \<Longrightarrow>
   length (filter R xs) \<le> sum_list (map f xs) \<Longrightarrow> \<forall>x \<in> set xs. R x \<longrightarrow> f x = 1"
proof (induction xs)
  case Nil
  then show ?case by simp
next
  case (Cons a xs)
  have le: "sum_list (map f xs) \<le> length (filter R xs)"
    using Cons.prems(1) by (intro sum_le_filter) simp
  show ?case
  proof (cases "R a")
    case True
    with Cons.prems le have "f a = 1" "length (filter R xs) \<le> sum_list (map f xs)" by auto
    with Cons.IH Cons.prems(1) show ?thesis by simp
  next
    case False
    with Cons.prems le have "f a = 0" "length (filter R xs) \<le> sum_list (map f xs)" by auto
    with Cons.IH Cons.prems(1) False show ?thesis by simp
  qed
qed

text \<open>The semaphore a thread of a given entry point signals when it is done.\<close>

definition done_sem :: "entrypoint \<Rightarrow> sem" where
  "done_sem ep = (case ep of Producer_entry \<Rightarrow> producer_finished | Consumer_entry \<Rightarrow> consumer_finished)"

lemma signal_count:
  assumes "conforms e th"
  shows "count_list (past th) (Called (V (done_sem ep))) \<le> (if runs ep (origin th) then 1 else 0)"
proof (cases "runs ep (origin th)")
  case True
  have "count_list (past th) (Called (V (done_sem ep))) \<le> 1"
  proof (rule count_le_one)
    fix pre rest assume "past th = pre @ Called (V (done_sem ep)) # rest"
    from conforms_past[OF assms this] True
    show "Called (V (done_sem ep)) \<notin> set pre"
      by (cases "origin th"; cases ep)
         (auto simp: thread_event_def done_sem_def split: entrypoint.splits)
  qed
  with True show ?thesis by simp
next
  case False
  have "Called (V (done_sem ep)) \<notin> set (past th)"
  proof
    assume "Called (V (done_sem ep)) \<in> set (past th)"
    then obtain pre rest where "past th = pre @ Called (V (done_sem ep)) # rest"
      by (auto dest: split_list)
    from conforms_past[OF assms this] False show False
      by (cases "origin th"; cases ep)
         (auto simp: thread_event_def done_sem_def split: entrypoint.splits)
  qed
  with False show ?thesis by (simp add: count_list_0_iff)
qed

lemma exec_Returned: "exec c e [] = Returned # rest \<Longrightarrow> c = Return"
  by (cases c) simp_all

lemma producer_after_signal:
  "producer_event pre ev \<Longrightarrow> Called (V producer_finished) \<in> set pre \<Longrightarrow> ev = Returned"
  by (cases "(pre, ev)" rule: producer_event.cases) auto

lemma consumer_after_signal:
  "consumer_event pre ev \<Longrightarrow> Called (V consumer_finished) \<in> set pre \<Longrightarrow> ev = Returned"
  by (cases "(pre, ev)" rule: consumer_event.cases) auto

lemma signalled_returns:
  assumes "conforms e th" and "runs ep (origin th)"
    and "Called (V (done_sem ep)) \<in> set (past th)"
  shows "code th = Return"
proof -
  obtain ev rest where ex: "exec (code th) e [] = ev # rest"
    by (cases "exec (code th) e []") simp_all
  from conforms_next[OF assms(1) this] assms(2,3) have "ev = Returned"
    by (cases "origin th"; cases ep)
       (auto simp: thread_event_def done_sem_def dest: producer_after_signal consumer_after_signal)
  with ex show ?thesis by (auto dest: exec_Returned)
qed

lemma all_signalled:
  assumes inv: "driver_inv e s"
    and created: "Created (done_sem ep) 0 True \<in> set (main_past s)"
    and alive: "Called (Sem_destroy (done_sem ep)) \<notin> set (main_past s)"
    and waited: "count_list (main_past s) (Called (P (done_sem ep))) = NUM_THREADS ep"
    and forked: "length (filter (forked_ok ep) (main_past s)) = NUM_THREADS ep"
  shows "length (filter (\<lambda>th. runs ep (origin th)) (threads s)) = NUM_THREADS ep \<and>
         (\<forall>th \<in> set (threads s). runs ep (origin th) \<longrightarrow>
            count_list (past th) (Called (V (done_sem ep))) = 1 \<and> code th = Return)"
proof -
  from inv have conf: "all_conform e s" and ids: "ids_ok s" and sem: "sem_inv (done_sem ep) s"
    and cnt: "count_inv ep s"
    by (simp_all add: driver_inv_def)
  let ?f = "\<lambda>th. count_list (past th) (Called (V (done_sem ep)))"
  let ?R = "\<lambda>th. runs ep (origin th)"
  have bound: "\<forall>th \<in> set (threads s). ?f th \<le> (if ?R th then 1 else 0)"
  proof
    fix th assume "th \<in> set (threads s)"
    then have "conforms e th" using conf by (simp add: all_conform_def)
    then show "?f th \<le> (if ?R th then 1 else 0)" by (rule signal_count)
  qed
  have n: "length (filter ?R (threads s)) = NUM_THREADS ep"
    using cnt forked by (simp add: count_inv_def origins_def filter_map comp_def)
  have "pasts s \<noteq> []" using ids by (auto simp: ids_ok_def origins_def pasts_def)
  then have "main_past s \<in> set (pasts s)" by (simp add: main_past_def)
  then have "count_list (main_past s) (Called (P (done_sem ep))) \<in>
      set (map (\<lambda>p. count_list p (Called (P (done_sem ep)))) (pasts s))" by simp
  then have "count_list (main_past s) (Called (P (done_sem ep))) \<le> total (Called (P (done_sem ep))) s"
    unfolding total_def by (simp only: member_le_sum_list)
  moreover obtain c where "c + total (Called (P (done_sem ep))) s = total (Called (V (done_sem ep))) s"
    using sem created alive by (auto simp: sem_inv_def)
  ultimately have "NUM_THREADS ep \<le> total (Called (V (done_sem ep))) s" using waited by simp
  then have ge: "length (filter ?R (threads s)) \<le> sum_list (map ?f (threads s))"
    using n by (simp add: total_def pasts_def comp_def)
  have one: "\<forall>th \<in> set (threads s). ?R th \<longrightarrow> ?f th = 1"
    using bound ge by (rule sum_eq_filter)
  have "code th = Return" if "th \<in> set (threads s)" "?R th" for th
  proof (rule signalled_returns)
    show "conforms e th" using conf that(1) by (simp add: all_conform_def)
    show "runs ep (origin th)" by (rule that(2))
    have "?f th = 1" using one that by blast
    then show "Called (V (done_sem ep)) \<in> set (past th)"
      by (metis count_list_0_iff zero_neq_one)
  qed
  with n one show ?thesis by blast
qed

lemma main_next:
  assumes "driver_inv e s" and "exec (code (threads s ! 0)) e xs = ev # rest"
  shows "main_event (main_past s) ev"
proof -
  from assms(1) have conf: "all_conform e s" and ids: "ids_ok s" by (simp_all add: driver_inv_def)
  have ne: "threads s \<noteq> []" using ids by (auto simp: ids_ok_def origins_def)
  then have "conforms e (threads s ! 0)" using conf by (simp add: all_conform_def)
  from conforms_next[OF this assms(2)] ids_ok_main[OF ids, of 0] ne
  show ?thesis
    by (simp add: thread_event_main main_past_def pasts_def hd_conv_nth hd_map)
qed

subsection \<open>The steps of the threads\<close>

lemma got_empty: "(\<And>d. Got d \<notin> set evs) \<Longrightarrow> got evs = []"
  by (induction evs rule: got.induct) auto

lemma main_conforms:
  assumes "driver_inv e s"
  shows "threads s \<noteq> []" and "conforms e (threads s ! 0)" and "origin (threads s ! 0) = None"
    and "main_past s = past (threads s ! 0)"
proof -
  from assms have conf: "all_conform e s" and ids: "ids_ok s" by (simp_all add: driver_inv_def)
  show ne: "threads s \<noteq> []" using ids by (auto simp: ids_ok_def origins_def)
  then show "conforms e (threads s ! 0)" using conf by (simp add: all_conform_def)
  show "origin (threads s ! 0) = None" using ids_ok_main[OF ids, of 0] ne by simp
  show "main_past s = past (threads s ! 0)" using ne by (simp add: main_past_def pasts_def hd_conv_nth hd_map)
qed



lemma returned_event:
  assumes "driver_inv e s" and "t < length (threads s)"
    and "exec (code (threads s ! t)) e xs = ev # rest"
  shows "(t = 0 \<and> main_event (main_past s) ev) \<or>
         (t \<noteq> 0 \<and> (producer_event (past (threads s ! t)) ev \<or> consumer_event (past (threads s ! t)) ev))"
proof -
  from assms(1) have conf: "all_conform e s" and ids: "ids_ok s" by (simp_all add: driver_inv_def)
  have "conforms e (threads s ! t)" using conf assms(2) by (simp add: all_conform_def)
  from conforms_next[OF this assms(3)]
  have ev: "thread_event (threads s ! t) (past (threads s ! t)) ev" .
  show ?thesis
  proof (cases "t = 0")
    case True
    then show ?thesis using ev main_conforms(3,4)[OF assms(1)] by (simp add: thread_event_main)
  next
    case False
    then have "origin (threads s ! t) \<noteq> None" using ids_ok_main[OF ids assms(2)] by simp
    from thread_event_other[OF this] ev False show ?thesis by auto
  qed
qed

lemma main_past_returned:
  assumes "threads s \<noteq> []"
  shows "main_past (returned t ev p s) = (if t = 0 then main_past s @ [ev] else main_past s)"
  using assms by (cases "threads s"; cases t) (simp_all add: main_past_def pasts_def)

lemma main_past_fields [simp]:
  "main_past (s\<lparr>sems := x\<rparr>) = main_past s"
  "main_past (s\<lparr>store := y\<rparr>) = main_past s"
  "main_past (s\<lparr>panicked := z\<rparr>) = main_past s"
  "main_past (s\<lparr>misused := w\<rparr>) = main_past s"
  "main_past (staged t st s) = main_past s"
  by (simp_all add: main_past_def)

lemma main_past_spawn:
  "threads s \<noteq> [] \<Longrightarrow> main_past (s\<lparr>threads := threads s @ [th]\<rparr>) = main_past s"
  by (cases "threads s") (simp_all add: main_past_def pasts_def)

lemma all_exited_at_shutdown:
  assumes inv: "driver_inv e s" and me: "main_event (main_past s) (Called Shutdown)"
  shows "\<forall>th \<in> set (tl (threads s)). code th = Return"
proof
  fix th assume th: "th \<in> set (tl (threads s))"
  from inv have ids: "ids_ok s" by (simp add: driver_inv_def)
  have mem: "th \<in> set (threads s)" using th by (cases "threads s") auto
  have "origin th \<noteq> None"
  proof -
    obtain a ths where ths: "threads s = a # ths" using mem by (cases "threads s") auto
    then have "th \<in> set ths" using th by simp
    then have "origin th \<in> set (tl (origins s))" using ths by (simp add: origins_def)
    moreover have "None \<notin> set (tl (origins s))" using ids by (simp add: ids_ok_def)
    ultimately show ?thesis by metis
  qed
  then obtain ep n where o: "origin th = Some (ep, n)" by (cases "origin th") auto
  have "length (filter (\<lambda>th. runs ep (origin th)) (threads s)) = NUM_THREADS ep \<and>
         (\<forall>th \<in> set (threads s). runs ep (origin th) \<longrightarrow>
            count_list (past th) (Called (V (done_sem ep))) = 1 \<and> code th = Return)"
    using me by (intro all_signalled[OF inv]; cases ep) (simp_all add: done_sem_def NUM_THREADS_def)
  with mem show "code th = Return" using o by auto
qed


lemma step_phase_cases [consumes 2, case_names Quiet Eventful]:
  assumes "step e C t s = Some s'" and "driver_inv e s"
  obtains
    (Quiet) "main_past s' = main_past s" "(store s' = None) = (store s = None)"
      "threads s' = threads s \<or>
       (store s \<noteq> None \<and> (\<exists>st. threads s' = (threads s)[t := (threads s ! t)\<lparr>stage := st\<rparr>]))"
  | (Eventful) ev p where "t < length (threads s)"
      "threads s' = (threads s)[t := (threads s ! t)\<lparr>code := p, stage := Idle,
          past := past (threads s ! t) @ [ev]\<rparr>] @ map (\<lambda>(ep, n). new_thread ep n) (spawned ev)"
      "ev \<noteq> Called Shutdown \<longrightarrow> (store s' \<noteq> None) = (ev = Called Startup \<or> store s \<noteq> None)"
      "(t = 0 \<and> main_event (main_past s) ev) \<or>
         (t \<noteq> 0 \<and> (producer_event (past (threads s ! t)) ev \<or> consumer_event (past (threads s ! t)) ev))"
      "main_past s' = (if t = 0 then main_past s @ [ev] else main_past s)"
      "code (threads s ! t) \<noteq> Return"
      "ev = Called Shutdown \<longrightarrow> store s' = None \<or> store s' = store s"
proof -
  have ne: "threads s \<noteq> []" using assms(2) by (rule main_conforms(1))
  note mp = main_past_returned[OF ne]
  note re = returned_event[OF assms(2)]
  from assms(1) show ?thesis
  proof (cases rule: step_cases)
    case (Panic m)
    then show ?thesis using that(1) by simp
  next
    case (Kprintf m p)
    then show ?thesis
      using that(2)[of "Called (Kprintf m)" p] re[of t "[]" "Called (Kprintf m)"] mp by simp
  next
    case (V sm p n)
    then show ?thesis
      using that(2)[of "Called (V sm)" p] re[of t "[]" "Called (V sm)"] mp by simp
  next
    case (P sm p n)
    then show ?thesis
      using that(2)[of "Called (P sm)" p] re[of t "[]" "Called (P sm)"] mp by simp
  next
    case (Startup p)
    then show ?thesis
      using that(2)[of "Called Startup" p] re[of t "[]" "Called Startup"] mp by simp
  next
    case (Shutdown p)
    then show ?thesis
      using that(2)[of "Called Shutdown" p] re[of t "[]" "Called Shutdown"] mp by simp
  next
    case (Destroy sm p)
    then show ?thesis
      using that(2)[of "Called (Sem_destroy sm)" p] re[of t "[]" "Called (Sem_destroy sm)"] mp
      by simp
  next
    case (Produce_stage d p c st c')
    then show ?thesis using that(1) by auto
  next
    case (Produce_return d p c d')
    then show ?thesis
      using that(2)[of "Called (Produce d)" p] re[of t "[]" "Called (Produce d)"] mp by simp
  next
    case (Consume_stage f c st c')
    then show ?thesis using that(1) by auto
  next
    case (Consume_return f c d)
    then show ?thesis
      using that(2)[of "Got d" "f d"] re[of t "[d]" "Got d"] mp by simp
  next
    case (Create sm n f)
    then show ?thesis
      using that(2)[of "Created sm n (sem_ok e sm)" "f (sem_ok e sm)"]
        re[of t "[]" "Created sm n (sem_ok e sm)"] mp by simp
  next
    case (Fork_ok ep n f)
    have "main_past s' = main_past (returned t (Forked ep n 0) (f 0) s)"
      unfolding Fork_ok(5) by (rule main_past_spawn) (simp add: ne)
    with Fork_ok show ?thesis
      using that(2)[of "Forked ep n 0" "f 0"] re[of t "[]" "Forked ep n 0"] mp by simp
  next
    case (Fork_fail ep n f)
    then show ?thesis
      using that(2)[of "Forked ep n (fork_result e ep n)" "f (fork_result e ep n)"]
        re[of t "[]" "Forked ep n (fork_result e ep n)"] mp by simp
  next
    case (Startup_fail p)
    then show ?thesis using that(1) by simp
  next
    case (Shutdown_misuse p)
    then show ?thesis
      using that(2)[of "Called Shutdown" p] re[of t "[]" "Called Shutdown"] mp by simp
  qed
qed

lemma nonmain_in_tl: "t < length xs \<Longrightarrow> t \<noteq> 0 \<Longrightarrow> xs ! t \<in> set (tl xs)"
  by (cases xs; cases t) auto

lemma panicked_simps [simp]:
  "panicked (returned t ev p s) = panicked s"
  "panicked (staged t st s) = panicked s"
  by (simp_all add: returned_def staged_def)

definition panic_inv :: "system \<Rightarrow> bool" where
  "panic_inv s \<longleftrightarrow> (panicked s \<longrightarrow> produced (main_past s) = [])"

lemma panic_inv_step:
  assumes step: "step e C t s = Some s'" and drv: "driver_inv e s"
  shows "panic_inv s'"
  using step
proof (cases rule: step_cases)
  case (Panic m)
  have "exec (code (threads s ! t)) e [] = [Panicked m]" using Panic(3) by simp
  from returned_event[OF drv Panic(1) this] have "produced (main_past s) = []"
    by auto
  then show ?thesis using Panic(4) by (simp add: panic_inv_def)
next
  case (Startup_fail p)
  have "exec (code (threads s ! t)) e [] = Called Startup # exec p e []" using Startup_fail(3) by simp
  from returned_event[OF drv Startup_fail(1) this] have "produced (main_past s) = []"
    by auto
  then show ?thesis using Startup_fail(5) by (simp add: panic_inv_def)
next
  case (Fork_ok ep n f)
  then show ?thesis by (simp add: panic_inv_def)
next
  case (Fork_fail ep n f)
  then show ?thesis by (simp add: panic_inv_def)
next
  case (Produce_stage d p c st c')
  then show ?thesis by (simp add: panic_inv_def)
next
  case (Consume_stage f c st c')
  then show ?thesis by (simp add: panic_inv_def)
qed (simp_all add: panic_inv_def)

lemma panic_inv_boot: "panic_inv boot"
  by (simp add: panic_inv_def boot_def)

text \<open>The numbers of the forked threads.\<close>

definition numbers_ok :: "system \<Rightarrow> bool" where
  "numbers_ok s \<longleftrightarrow> (\<forall>ep n. Some (ep, n) \<in> set (origins s) \<longrightarrow> unat n < NUM_THREADS ep)"

lemma unat_thread_number:
  "k < NUM_THREADS ep \<Longrightarrow> unat (of_nat k :: cint) = k"
  by (cases ep) (simp_all add: NUM_THREADS_def NUM_PRODUCERS_def NUM_CONSUMERS_def unat_of_nat
      take_bit_nat_eq_self)

lemma numbers_ok_step:
  assumes step: "step e C t s = Some s'" and drv: "driver_inv e s" and num: "numbers_ok s"
  shows "numbers_ok s'"
  using step drv
proof (cases rule: step_phase_cases)
  case Quiet
  from Quiet(3) have "origins s' = origins s"
    by (auto simp: origins_def map_update)
  with num show ?thesis by (simp add: numbers_ok_def)
next
  case (Eventful ev p)
  have o: "origins s' = origins s @ map Some (spawned ev)"
    unfolding origins_def Eventful(2) by (simp add: map_update new_thread_def comp_def case_prod_beta)
  show ?thesis
  proof (cases "spawned ev = []")
    case True
    with o num show ?thesis by (simp add: numbers_ok_def)
  next
    case False
    then obtain ep n where ev: "ev = Forked ep n 0" "spawned ev = [(ep, n)]"
      by (cases ev) (auto split: if_splits)
    with Eventful(4) have "main_event (main_past s) (Forked ep n 0)" by auto
    then have "unat n < NUM_THREADS ep" using unat_thread_number[of _ ep] by simp
    with o ev num show ?thesis by (auto simp add: numbers_ok_def)
  qed
qed

lemma numbers_ok_boot: "numbers_ok boot"
  by (simp add: numbers_ok_def boot_def origins_def)

text \<open>
  Once the main thread has handed over its first item, every producer thread has
  returned and all the threads have been forked.
\<close>

definition closing_inv :: "system \<Rightarrow> bool" where
  "closing_inv s \<longleftrightarrow> (produced (main_past s) \<noteq> [] \<longrightarrow>
     (\<forall>th \<in> set (threads s). runs Producer_entry (origin th) \<longrightarrow> code th = Return) \<and>
     length (filter (forked_ok Consumer_entry) (main_past s)) = NUM_CONSUMERS \<and>
     length (filter (forked_ok Producer_entry) (main_past s)) = NUM_PRODUCERS \<and>
     Created consumer_finished 0 True \<in> set (main_past s) \<and>
     Called Startup \<in> set (main_past s))"

lemma closing_inv_step:
  assumes step: "step e C t s = Some s'" and drv: "driver_inv e s" and cl: "closing_inv s"
  shows "closing_inv s'"
  using step drv
proof (cases rule: step_phase_cases)
  case Quiet
  have "\<forall>th \<in> set (threads s'). runs Producer_entry (origin th) \<longrightarrow> code th = Return"
    if a: "\<forall>th \<in> set (threads s). runs Producer_entry (origin th) \<longrightarrow> code th = Return"
    using Quiet(3)
  proof
    assume "threads s' = threads s"
    with a show ?thesis by simp
  next
    assume "store s \<noteq> None \<and> (\<exists>st. threads s' = (threads s)[t := (threads s ! t)\<lparr>stage := st\<rparr>])"
    then obtain st where th: "threads s' = (threads s)[t := (threads s ! t)\<lparr>stage := st\<rparr>]" by blast
    show ?thesis
    proof (cases "t < length (threads s)")
      case True
      from a have "\<forall>th \<in> set ((threads s)[t := (threads s ! t)\<lparr>stage := st\<rparr>]).
          runs Producer_entry (origin th) \<longrightarrow> code th = Return"
        by (rule all_threads_update) (use a True in auto)
      then show ?thesis unfolding th .
    next
      case False
      then show ?thesis using a th by (simp add: list_update_beyond)
    qed
  qed
  with cl Quiet(1) show ?thesis by (simp add: closing_inv_def)
next
  case (Eventful ev p)
  let ?th' = "(threads s ! t)\<lparr>code := p, stage := Idle, past := past (threads s ! t) @ [ev]\<rparr>"
  show ?thesis
  proof (cases "t = 0")
    case True
    with Eventful(4) have me: "main_event (main_past s) ev" by simp
    have mp': "main_past s' = main_past s @ [ev]" using Eventful(5) True by simp
    have o0: "origin (threads s ! 0) = None" using drv by (rule main_conforms(3))
    show ?thesis
    proof (cases "produced (main_past s) = []")
      case False
      then have nf: "\<not> is_forked ev" using me by (cases ev) auto
      then have sp: "spawned ev = []" by (cases ev) auto
      have f: "\<not> forked_ok ep ev" for ep
        using nf by (cases ev) auto
      from cl False have a: "\<forall>th \<in> set (threads s). runs Producer_entry (origin th) \<longrightarrow> code th = Return"
        by (simp add: closing_inv_def)
      have "\<forall>th \<in> set ((threads s)[t := ?th']). runs Producer_entry (origin th) \<longrightarrow> code th = Return"
        using a by (rule all_threads_update) (simp add: True o0)
      then show ?thesis using cl False f unfolding closing_inv_def Eventful(2) sp mp' by simp
    next
      case empty: True
      show ?thesis
      proof (cases "produced [ev] = []")
        case True
        then show ?thesis using empty by (simp add: closing_inv_def mp')
      next
        case False
        then obtain d where ev: "ev = Called (Produce d)"
        proof (cases ev)
          case (Called a)
          with False that show ?thesis by (cases a) auto
        qed auto
        have sig: "length (filter (\<lambda>th. runs Producer_entry (origin th)) (threads s)) = NUM_THREADS Producer_entry \<and>
         (\<forall>th \<in> set (threads s). runs Producer_entry (origin th) \<longrightarrow>
            count_list (past th) (Called (V (done_sem Producer_entry))) = 1 \<and> code th = Return)"
          using me unfolding ev
          by (intro all_signalled[OF drv]) (simp_all add: done_sem_def NUM_THREADS_def)
        then have a: "\<forall>th \<in> set (threads s). runs Producer_entry (origin th) \<longrightarrow> code th = Return"
          by blast
        have "\<forall>th \<in> set ((threads s)[t := ?th']). runs Producer_entry (origin th) \<longrightarrow> code th = Return"
          using a by (rule all_threads_update) (simp add: True o0)
        then show ?thesis using me unfolding closing_inv_def Eventful(2) mp' ev by simp
      qed
    qed
  next
    case False
    with Eventful(4) have oe: "producer_event (past (threads s ! t)) ev \<or> consumer_event (past (threads s ! t)) ev"
      by simp
    have mp': "main_past s' = main_past s" using Eventful(5) False by simp
    have sp: "spawned ev = []" using oe by (cases ev) auto
    show ?thesis
    proof (cases "produced (main_past s) = []")
      case True
      then show ?thesis by (simp add: closing_inv_def mp')
    next
      case ne: False
      from cl ne have a: "\<forall>th \<in> set (threads s). runs Producer_entry (origin th) \<longrightarrow> code th = Return"
        by (simp add: closing_inv_def)
      have "\<not> runs Producer_entry (origin (threads s ! t))"
        using a Eventful(1,6) by auto
      with a have "\<forall>th \<in> set ((threads s)[t := ?th']). runs Producer_entry (origin th) \<longrightarrow> code th = Return"
        by (intro all_threads_update) simp_all
      then show ?thesis using cl ne unfolding closing_inv_def Eventful(2) sp mp' by simp
    qed
  qed
qed

lemma closing_inv_boot: "closing_inv boot"
  by (simp add: closing_inv_def boot_def main_past_def pasts_def)

text \<open>What the threads of each kind can be doing.\<close>

lemma thread_kinds:
  assumes "driver_inv e s" and "th \<in> set (threads s)"
  obtains (Main) "th = threads s ! 0" "origin th = None" "thread_event th = main_event"
      "past th = main_past s"
    | (Producer) n where "origin th = Some (Producer_entry, n)" "thread_event th = producer_event"
    | (Consumer) n where "origin th = Some (Consumer_entry, n)" "thread_event th = consumer_event"
proof -
  from assms(2) obtain t where t: "t < length (threads s)" "th = threads s ! t"
    by (auto simp: in_set_conv_nth)
  from assms(1) have ids: "ids_ok s" by (simp add: driver_inv_def)
  show ?thesis
  proof (cases "origin th")
    case None
    then have "t = 0" using ids_ok_main[OF ids t(1)] t(2) by simp
    then show ?thesis using Main None t(2) main_conforms(4)[OF assms(1)]
      by (simp add: thread_event_def)
  next
    case (Some a)
    then show ?thesis using Producer Consumer
      by (cases a; cases "fst a") (auto simp: thread_event_def)
  qed
qed

lemma conforms_member: "driver_inv e s \<Longrightarrow> th \<in> set (threads s) \<Longrightarrow> conforms e th"
  by (simp add: driver_inv_def all_conform_def)

lemma past_events:
  assumes "conforms e th" and "ev \<in> set (past th)"
  shows "\<exists>pre. set pre \<subseteq> set (past th) \<and> thread_event th pre ev"
proof -
  from assms(2) obtain pre rest where sp: "past th = pre @ ev # rest" by (auto dest: split_list)
  from conforms_past[OF assms(1) this] sp show ?thesis by auto
qed

subsection \<open>The ring of slots\<close>


definition ring :: "nat \<Rightarrow> 'a option list \<Rightarrow> nat \<Rightarrow> nat \<Rightarrow> 'a option" where
  "ring C xs h i = xs ! ((h + i) mod C)"

definition ring_queue :: "nat \<Rightarrow> 'a option list \<Rightarrow> nat \<Rightarrow> nat \<Rightarrow> 'a list" where
  "ring_queue C xs h n = map (\<lambda>i. the (ring C xs h i)) [0..<n]"

definition ring_ok :: "nat \<Rightarrow> 'a option list \<Rightarrow> nat \<Rightarrow> nat \<Rightarrow> bool" where
  "ring_ok C xs h n \<longleftrightarrow> length xs = C \<and> h < C \<and> n \<le> C \<and> (\<forall>i<C. (ring C xs h i \<noteq> None) = (i < n))"




subsection \<open>The accounts of the core\<close>

text \<open>
  The call of the core a thread is in or about to make, and what its stage says about the
  units it holds: a unit of capacity or of availability from the wait to the slot access, a
  moved item from the slot access to the final signal.
\<close>

datatype call = Producing pc_data | Consuming | Other

fun current_call :: "prog \<Rightarrow> call" where
  "current_call (Do (Produce d) p) = Producing d"
| "current_call (Consume f) = Consuming"
| "current_call p = Other"

definition tally :: "(thread \<Rightarrow> 'a::comm_monoid_add) \<Rightarrow> system \<Rightarrow> 'a" where
  "tally f s = sum_list (map f (threads s))"

fun unit_held :: "stage \<Rightarrow> nat" where
  "unit_held Reserved = 1"
| "unit_held Inside = 1"
| "unit_held st = 0"

fun slot_done :: "stage \<Rightarrow> nat" where
  "slot_done (Slot_done d) = 1"
| "slot_done (Released d) = 1"
| "slot_done st = 0"

fun inside :: "stage \<Rightarrow> nat" where
  "inside Inside = 1"
| "inside (Slot_done d) = 1"
| "inside st = 0"

fun carried :: "stage \<Rightarrow> pc_data multiset" where
  "carried (Slot_done d) = {#d#}"
| "carried (Released d) = {#d#}"
| "carried st = {#}"

definition reserved :: "thread \<Rightarrow> nat" where
  "reserved th = (case current_call (code th) of Producing d \<Rightarrow> unit_held (stage th) | _ \<Rightarrow> 0)"

definition written :: "thread \<Rightarrow> nat" where
  "written th = (case current_call (code th) of Producing d \<Rightarrow> slot_done (stage th) | _ \<Rightarrow> 0)"

definition holding :: "thread \<Rightarrow> nat" where
  "holding th = (case current_call (code th) of Consuming \<Rightarrow> unit_held (stage th) | _ \<Rightarrow> 0)"

definition freed :: "thread \<Rightarrow> nat" where
  "freed th = (case current_call (code th) of Consuming \<Rightarrow> slot_done (stage th) | _ \<Rightarrow> 0)"

definition in_region :: "thread \<Rightarrow> nat" where
  "in_region th = inside (stage th)"

text \<open>
  The items a thread has put into the store (by completed calls, or by a call that has
  written its slot), and the items it has taken out of it.
\<close>

definition handed :: "thread \<Rightarrow> pc_data multiset" where
  "handed th = mset (produced (past th)) +
     (case current_call (code th) of Producing d \<Rightarrow> (if slot_done (stage th) = 1 then {#d#} else {#}) | _ \<Rightarrow> {#})"

definition taken :: "thread \<Rightarrow> pc_data multiset" where
  "taken th = mset (got (past th)) +
     (case current_call (code th) of Consuming \<Rightarrow> carried (stage th) | _ \<Rightarrow> {#})"

text \<open>
  The invariant of the store: the two counts and the units in flight add up to the
  capacity, the occupied slots are the next \<open>occupied\<close> ones from the head and the tail
  comes right after them, at most one thread is inside the region, and the items handed in
  are those taken out together with those in the slots.
\<close>

definition occupied :: "system \<Rightarrow> core \<Rightarrow> nat" where
  "occupied s c = items_available c + tally written s + tally holding s"

definition stages_ok :: "system \<Rightarrow> bool" where
  "stages_ok s \<longleftrightarrow> (\<forall>th \<in> set (threads s). current_call (code th) = Other \<longrightarrow> stage th = Idle)"

definition store_inv :: "nat \<Rightarrow> system \<Rightarrow> core \<Rightarrow> bool" where
  "store_inv C s c \<longleftrightarrow>
     capacity_available c + tally reserved s + occupied s c + tally freed s = C \<and>
     ring_ok C (slots c) (head c) (occupied s c) \<and>
     tail c = (head c + occupied s c) mod C \<and>
     tally in_region s = (if exclusion c then 1 else 0) \<and>
     tally handed s = tally taken s + mset (ring_queue C (slots c) (head c) (occupied s c))"

definition core_inv :: "nat \<Rightarrow> system \<Rightarrow> bool" where
  "core_inv C s \<longleftrightarrow> stages_ok s \<and> (case store s of None \<Rightarrow> True | Some c \<Rightarrow> store_inv C s c)"

lemma consumer_about_to_get:
  assumes "conforms e th" and "thread_event th = consumer_event" and "code th = Consume f"
  shows "list_all consumer_continues (got (past th))"
proof -
  have "exec (code th) e [d] = Got d # exec (f d) e []" for d using assms(3) by simp
  from conforms_next[OF assms(1) this] assms(2) show ?thesis by simp
qed

lemma never_consuming:
  assumes "conforms e th" and "thread_event th = main_event \<or> thread_event th = producer_event"
  shows "current_call (code th) \<noteq> Consuming" and "got (past th) = []"
proof -
  show "current_call (code th) \<noteq> Consuming"
  proof
    assume "current_call (code th) = Consuming"
    then obtain f where "code th = Consume f" by (cases "code th" rule: current_call.cases) auto
    then have "exec (code th) e [undefined] = Got undefined # exec (f undefined) e []" by simp
    from conforms_next[OF assms(1) this] assms(2) show False by auto
  qed
  show "got (past th) = []"
  proof (rule got_empty)
    fix d
    show "Got d \<notin> set (past th)"
    proof
      assume "Got d \<in> set (past th)"
      from past_events[OF assms(1) this] assms(2) show False by auto
    qed
  qed
qed

lemma produced_empty: "(\<And>d. Called (Produce d) \<notin> set evs) \<Longrightarrow> produced evs = []"
  by (induction evs rule: produced.induct) auto

lemma never_producing:
  assumes "conforms e th" and "thread_event th = consumer_event"
  shows "current_call (code th) \<noteq> Producing d" and "produced (past th) = []"
proof -
  show "current_call (code th) \<noteq> Producing d"
  proof
    assume "current_call (code th) = Producing d"
    then obtain p where "code th = Do (Produce d) p"
      by (cases "code th" rule: current_call.cases) auto
    then have "exec (code th) e [] = Called (Produce d) # exec p e []" by simp
    from conforms_next[OF assms(1) this] assms(2) show False by auto
  qed
  have "Called (Produce x) \<notin> set (past th)" for x
  proof
    assume "Called (Produce x) \<in> set (past th)"
    from past_events[OF assms(1) this] assms(2) show False by auto
  qed
  then show "produced (past th) = []" by (rule produced_empty)
qed






lemma tally_fields [simp]:
  "tally f (s\<lparr>sems := x\<rparr>) = tally f s"
  "tally f (s\<lparr>store := y\<rparr>) = tally f s"
  "tally f (s\<lparr>panicked := z\<rparr>) = tally f s"
  "tally f (s\<lparr>misused := w\<rparr>) = tally f s"
  by (simp_all add: tally_def)

lemma stages_ok_fields [simp]:
  "stages_ok (s\<lparr>sems := x\<rparr>) = stages_ok s"
  "stages_ok (s\<lparr>store := y\<rparr>) = stages_ok s"
  "stages_ok (s\<lparr>panicked := z\<rparr>) = stages_ok s"
  "stages_ok (s\<lparr>misused := w\<rparr>) = stages_ok s"
  by (simp_all add: stages_ok_def)

lemma occupied_fields [simp]:
  "occupied (s\<lparr>sems := x\<rparr>) c = occupied s c"
  "occupied (s\<lparr>store := y\<rparr>) c = occupied s c"
  "occupied (s\<lparr>panicked := z\<rparr>) c = occupied s c"
  "occupied (s\<lparr>misused := w\<rparr>) c = occupied s c"
  by (simp_all add: occupied_def)

lemma store_inv_fields [simp]:
  "store_inv C (s\<lparr>sems := x\<rparr>) c = store_inv C s c"
  "store_inv C (s\<lparr>store := y\<rparr>) c = store_inv C s c"
  "store_inv C (s\<lparr>panicked := z\<rparr>) c = store_inv C s c"
  "store_inv C (s\<lparr>misused := w\<rparr>) c = store_inv C s c"
  by (simp_all add: store_inv_def)

lemma core_inv_fields [simp]:
  "core_inv C (s\<lparr>sems := x\<rparr>) = core_inv C s"
  "core_inv C (s\<lparr>panicked := z\<rparr>) = core_inv C s"
  "core_inv C (s\<lparr>misused := w\<rparr>) = core_inv C s"
  by (simp_all add: core_inv_def split: option.splits)






lemma tally_ge: "t < length (threads s) \<Longrightarrow> f (threads s ! t) \<le> (tally f s :: nat)"
  unfolding tally_def by (simp add: member_le_sum_list)










subsection \<open>The phases of the run\<close>

text \<open>
  The store exists from the main thread's call of \<^verbatim>\<open>producerconsumer_startup\<close> to its call
  of \<^verbatim>\<open>producerconsumer_shutdown\<close>; outside of this span no thread is inside a call of the
  core, and after it every forked thread has returned.
\<close>

definition phase_inv :: "system \<Rightarrow> bool" where
  "phase_inv s \<longleftrightarrow>
     (Called Shutdown \<notin> set (main_past s) \<longrightarrow>
        (store s \<noteq> None) = (Called Startup \<in> set (main_past s))) \<and>
     (store s = None \<longrightarrow> (\<forall>th \<in> set (threads s). stage th = Idle)) \<and>
     (Called Shutdown \<in> set (main_past s) \<longrightarrow> (\<forall>th \<in> set (tl (threads s)). code th = Return))"

lemma phase_inv_step:
  assumes step: "step e C t s = Some s'" and ph: "phase_inv s" and drv: "driver_inv e s"
    and core: "core_inv C s"
  shows "phase_inv s'"
  using step drv
proof (cases rule: step_phase_cases)
  case Quiet
  from ph have A: "Called Shutdown \<notin> set (main_past s) \<longrightarrow>
        (store s \<noteq> None) = (Called Startup \<in> set (main_past s))"
    and B: "store s = None \<longrightarrow> (\<forall>th \<in> set (threads s). stage th = Idle)"
    and Cc: "Called Shutdown \<in> set (main_past s) \<longrightarrow> (\<forall>th \<in> set (tl (threads s)). code th = Return)"
    by (simp_all add: phase_inv_def)
  from Quiet(3) show ?thesis
  proof
    assume "threads s' = threads s"
    with Quiet(1,2) A B Cc show ?thesis by (simp add: phase_inv_def)
  next
    assume a: "store s \<noteq> None \<and> (\<exists>st. threads s' = (threads s)[t := (threads s ! t)\<lparr>stage := st\<rparr>])"
    then have st: "store s' \<noteq> None" using Quiet(2) by auto
    from a have "map code (threads s') = map code (threads s)" by (auto simp: map_update)
    then have "map code (tl (threads s')) = map code (tl (threads s))" by (simp add: map_tl)
    then have "set (map code (tl (threads s'))) = set (map code (tl (threads s)))" by simp
    then have "(\<forall>th \<in> set (tl (threads s')). code th = Return) =
        (\<forall>th \<in> set (tl (threads s)). code th = Return)"
      unfolding set_map by (metis (mono_tags, lifting) image_iff)
    with Quiet(1,2) A Cc st show ?thesis by (auto simp add: phase_inv_def)
  qed
next
  case (Eventful ev p)
  from ph have A: "Called Shutdown \<notin> set (main_past s) \<longrightarrow>
        (store s \<noteq> None) = (Called Startup \<in> set (main_past s))"
    and B: "store s = None \<longrightarrow> (\<forall>th \<in> set (threads s). stage th = Idle)"
    and Cc: "Called Shutdown \<in> set (main_past s) \<longrightarrow> (\<forall>th \<in> set (tl (threads s)). code th = Return)"
    by (simp_all add: phase_inv_def)
  have ne: "threads s \<noteq> []" using drv by (rule main_conforms(1))
  let ?th' = "(threads s ! t)\<lparr>code := p, stage := Idle, past := past (threads s ! t) @ [ev]\<rparr>"
  show ?thesis
  proof (cases "t = 0")
    case True
    with Eventful(4) have me: "main_event (main_past s) ev" by simp
    have mp': "main_past s' = main_past s @ [ev]" using Eventful(5) True by simp
    have tl': "tl (threads s') = tl (threads s) @ map (\<lambda>(ep, n). new_thread ep n) (spawned ev)"
      unfolding Eventful(2) True using ne by (cases "threads s") simp_all
    have A': "Called Shutdown \<notin> set (main_past s') \<longrightarrow>
        (store s' \<noteq> None) = (Called Startup \<in> set (main_past s'))"
      unfolding mp' using A Eventful(3) by auto
    have others: "\<forall>th \<in> set (tl (threads s)). code th = Return \<and> stage th = Idle"
      if "Called Shutdown \<in> set (main_past s')"
    proof -
      have "\<forall>th \<in> set (tl (threads s)). code th = Return"
      proof (cases "ev = Called Shutdown")
        case True
        with me show ?thesis using all_exited_at_shutdown[OF drv] by simp
      next
        case False
        with that mp' Cc show ?thesis by simp
      qed
      moreover have "stage th = Idle" if "th \<in> set (threads s)" "code th = Return" for th
        using core that by (simp add: core_inv_def stages_ok_def)
      moreover have "set (tl (threads s)) \<subseteq> set (threads s)" by (cases "threads s") auto
      ultimately show ?thesis by blast
    qed
    have nofork: "spawned ev = []" if "Called Shutdown \<in> set (main_past s')"
      using that mp' me by (cases ev) auto
    have B': "store s' = None \<longrightarrow> (\<forall>th \<in> set (threads s'). stage th = Idle)"
    proof
      assume none: "store s' = None"
      show "\<forall>th \<in> set (threads s'). stage th = Idle"
      proof (cases "store s = None")
        case True
        with B have "\<forall>th \<in> set (threads s). stage th = Idle" by simp
        then have "\<forall>th \<in> set ((threads s)[t := ?th']). stage th = Idle"
          by (rule all_threads_update) simp
        then show ?thesis unfolding Eventful(2) by (auto simp: new_thread_def)
      next
        case False
        with none Eventful(3) have "ev = Called Shutdown" by auto
        then have sh: "Called Shutdown \<in> set (main_past s')" using mp' by simp
        have "threads s' = ?th' # tl (threads s)"
          unfolding Eventful(2) True using ne nofork[OF sh] by (cases "threads s") simp_all
        with others[OF sh] show ?thesis by simp
      qed
    qed
    have C': "Called Shutdown \<in> set (main_past s') \<longrightarrow> (\<forall>th \<in> set (tl (threads s')). code th = Return)"
      using others nofork tl' by auto
    from A' B' C' show ?thesis by (simp add: phase_inv_def)
  next
    case False
    with Eventful(4) have oe: "producer_event (past (threads s ! t)) ev \<or> consumer_event (past (threads s ! t)) ev"
      by simp
    have mp': "main_past s' = main_past s" using Eventful(5) False by simp
    have evs: "ev \<noteq> Called Startup" "ev \<noteq> Called Shutdown" "spawned ev = []"
      using oe by (cases ev; auto)+
    have alive: "Called Shutdown \<notin> set (main_past s)"
    proof
      assume "Called Shutdown \<in> set (main_past s)"
      with Cc have "code (threads s ! t) = Return"
        using nonmain_in_tl[OF Eventful(1) False] by blast
      with Eventful(6) show False by simp
    qed
    have th': "threads s' = (threads s)[t := ?th']" using Eventful(2) evs by simp
    have "store s' = None \<longrightarrow> (\<forall>th \<in> set (threads s'). stage th = Idle)"
    proof
      assume "store s' = None"
      then have "store s = None" using Eventful(3) evs by simp
      with B have "\<forall>th \<in> set (threads s). stage th = Idle" by simp
      then show "\<forall>th \<in> set (threads s'). stage th = Idle"
        unfolding th' by (rule all_threads_update) simp
    qed
    then show ?thesis using A alive mp' Eventful(3) evs by (simp add: phase_inv_def)
  qed
qed

lemma phase_inv_boot: "phase_inv boot"
  by (simp add: phase_inv_def boot_def main_past_def pasts_def)

text \<open>The call a thread makes next, when it is one without a result.\<close>

fun next_action :: "prog \<Rightarrow> action option" where
  "next_action (Do a p) = Some a"
| "next_action p = None"

definition exited :: "thread \<Rightarrow> bool" where
  "exited th = (case code th of Return \<Rightarrow> True | _ \<Rightarrow> False)"

lemma next_action_Some: "next_action c = Some a \<Longrightarrow> \<exists>p. c = Do a p"
  by (cases c) simp_all

lemma exited_Return [simp]: "code th = Return \<Longrightarrow> exited th"
  by (simp add: exited_def)

text \<open>
  Two schedules for a buffer of 64 slots. The first runs the main thread up to its wait
  for the producers, lets both producers run to their end, and takes the main thread
  through the wait. The second goes on: the main thread enqueues the five (0, 0) items,
  the first consumer drains the buffer up to the first of them, the other consumers take
  one each, and the main thread collects the five completion signals.
\<close>

definition producers_done :: "nat list" where
  "producers_done = replicate 12 0 @ replicate 148 6 @ replicate 148 7 @ replicate 3 0"

definition consumers_done :: "nat list" where
  "consumers_done = producers_done @ replicate 25 0 @ replicate 298 1 @ replicate 8 2 @
     replicate 8 3 @ replicate 8 4 @ replicate 8 5 @ replicate 5 0"



section \<open>The claims about the running system\<close>

text \<open>
  C6. In every reachable state, under every schedule, every capacity and every outcome of
  the allocations and forks: when the main thread (thread 0) is at a call of
  \<^verbatim>\<open>producer_produce\<close>, which it only makes to enqueue the shutdown items, there are
  \<^verbatim>\<open>NUM_PRODUCERS\<close> producer threads and each of them has signalled \<^verbatim>\<open>producer_finished\<close>
  exactly once and has returned; and when the main thread is at its call of
  \<^verbatim>\<open>producerconsumer_shutdown\<close>, there are \<^verbatim>\<open>NUM_CONSUMERS\<close> consumer threads and each of
  them has signalled \<^verbatim>\<open>consumer_finished\<close> exactly once and has returned.
\<close>

theorem shutdown_sequencing:
  assumes "s = run e C sched boot"
  shows "(next_action (code (threads s ! 0)) = Some (Produce d) \<longrightarrow>
           length (filter (\<lambda>th. runs Producer_entry (origin th)) (threads s)) = NUM_PRODUCERS \<and>
           (\<forall>th \<in> set (threads s). runs Producer_entry (origin th) \<longrightarrow>
              count_list (past th) (Called (V producer_finished)) = 1 \<and> exited th)) \<and>
         (next_action (code (threads s ! 0)) = Some Shutdown \<longrightarrow>
           length (filter (\<lambda>th. runs Consumer_entry (origin th)) (threads s)) = NUM_CONSUMERS \<and>
           (\<forall>th \<in> set (threads s). runs Consumer_entry (origin th) \<longrightarrow>
              count_list (past th) (Called (V consumer_finished)) = 1 \<and> exited th))"
proof (intro conjI impI)
  have inv: "driver_inv e s" unfolding assms using driver_inv_boot by (rule driver_inv_run)
  {
    assume "next_action (code (threads s ! 0)) = Some (Produce d)"
    then obtain p where "code (threads s ! 0) = Do (Produce d) p" by (auto dest: next_action_Some)
    then have "exec (code (threads s ! 0)) e [] = Called (Produce d) # exec p e []" by simp
    from main_next[OF inv this]
    have "length (filter (\<lambda>th. runs Producer_entry (origin th)) (threads s)) = NUM_THREADS Producer_entry \<and>
         (\<forall>th \<in> set (threads s). runs Producer_entry (origin th) \<longrightarrow>
            count_list (past th) (Called (V (done_sem Producer_entry))) = 1 \<and> code th = Return)"
      by (intro all_signalled[OF inv]) (simp_all add: done_sem_def NUM_THREADS_def)
    then show "length (filter (\<lambda>th. runs Producer_entry (origin th)) (threads s)) = NUM_PRODUCERS"
      and "\<forall>th \<in> set (threads s). runs Producer_entry (origin th) \<longrightarrow>
              count_list (past th) (Called (V producer_finished)) = 1 \<and> exited th"
      by (simp_all add: done_sem_def NUM_THREADS_def)
  }
  {
    assume "next_action (code (threads s ! 0)) = Some Shutdown"
    then obtain p where "code (threads s ! 0) = Do Shutdown p" by (auto dest: next_action_Some)
    then have "exec (code (threads s ! 0)) e [] = Called Shutdown # exec p e []" by simp
    from main_next[OF inv this]
    have "length (filter (\<lambda>th. runs Consumer_entry (origin th)) (threads s)) = NUM_THREADS Consumer_entry \<and>
         (\<forall>th \<in> set (threads s). runs Consumer_entry (origin th) \<longrightarrow>
            count_list (past th) (Called (V (done_sem Consumer_entry))) = 1 \<and> code th = Return)"
      by (intro all_signalled[OF inv]) (simp_all add: done_sem_def NUM_THREADS_def)
    then show "length (filter (\<lambda>th. runs Consumer_entry (origin th)) (threads s)) = NUM_CONSUMERS"
      and "\<forall>th \<in> set (threads s). runs Consumer_entry (origin th) \<longrightarrow>
              count_list (past th) (Called (V consumer_finished)) = 1 \<and> exited th"
      by (simp_all add: done_sem_def NUM_THREADS_def)
  }
qed

theorem shutdown_sequencing_witness:
  "next_action (code (threads (run all_succeed 64 producers_done boot) ! 0))
     = Some (Produce \<lparr>item1 = 0, item2 = 0\<rparr>) \<and>
   length (filter (\<lambda>th. runs Producer_entry (origin th))
     (threads (run all_succeed 64 producers_done boot))) = NUM_PRODUCERS \<and>
   list_all (\<lambda>th. runs Producer_entry (origin th) \<longrightarrow> exited th)
     (threads (run all_succeed 64 producers_done boot)) \<and>
   next_action (code (threads (run all_succeed 64 consumers_done boot) ! 0)) = Some Shutdown \<and>
   length (filter (\<lambda>th. runs Consumer_entry (origin th))
     (threads (run all_succeed 64 consumers_done boot))) = NUM_CONSUMERS \<and>
   list_all (\<lambda>th. runs Consumer_entry (origin th) \<longrightarrow> exited th)
     (threads (run all_succeed 64 consumers_done boot))"
proof -
  have 1: "next_action (code (threads (run all_succeed 64 producers_done boot) ! 0))
     = Some (Produce \<lparr>item1 = 0, item2 = 0\<rparr>)"
    by code_simp
  have 2: "next_action (code (threads (run all_succeed 64 consumers_done boot) ! 0)) = Some Shutdown"
    by code_simp
  from shutdown_sequencing[OF refl, of all_succeed 64 producers_done "\<lparr>item1 = 0, item2 = 0\<rparr>"] 1
    shutdown_sequencing[OF refl, of all_succeed 64 consumers_done] 2
  show ?thesis unfolding list_all_iff by blast
qed



end
